theory Spec2Isabelle
  imports Main
begin

section \<open>Data model of grepast.go\<close>

text \<open>
  A syntax node as the indexer reads it: its start row, its end row and its named
  children in order.  The loops of \<open>walkTree\<close> and \<open>findAllChildren\<close> run \<open>i\<close> over
  \<open>ChildCount()\<close> and keep \<open>NamedChild(i)\<close> when it is not nil; since there are never
  more named children than children, this visits every named child once, in order.
  Rows are unsigned in the parsing backend and converted with \<open>int(...)\<close>.
\<close>

datatype node = Node (startRow: nat) (endRow: nat) (namedChildren: "node list")

text \<open>\<open>TreeContextOptions\<close> (the \<open>Verbose\<close> flag only prints and is left out).\<close>

record TreeContextOptions =
  Color :: bool
  ShowLineNumber :: bool
  ShowParentContext :: bool
  ShowChildContext :: bool
  ShowLastLine :: bool
  MarginPadding :: int
  MarkLinesOfInterest :: bool
  HeaderMax :: int
  ShowTopOfFileParentScope :: bool
  LinesOfInterestPadding :: int

text \<open>
  \<open>TreeContext\<close>.  Go's \<open>map[int]struct{}\<close> is a finite set of integers, \<open>map[int]string\<close>
  a partial map.  Go's \<open>int\<close> is modelled by the unbounded integers; the program
  differs from the model only where \<open>line + loiPad\<close> passes \<open>2^63\<close> in the padding loop.
  The last field is not in the source: it counts the \<open>range\<close> loops
  over maps started so far, so that the order the runtime picks for each such loop can
  be given from outside (see \<open>addParentScopes\<close>).
\<close>

record TreeContext =
  color :: bool
  lineNumber :: bool
  lastLine :: bool
  margin :: int
  markLOIs :: bool
  headerMax :: int
  loiPad :: int
  showTopOfFileParentScope :: bool
  parentContext :: bool
  childContext :: bool
  lines :: "string list"
  numLines :: int
  outputLines :: "int \<rightharpoonup> string"
  scopes :: "int set list"
  header :: "int list list"
  nodes :: "node list list"
  showLines :: "int set"
  linesOfInterest :: "int set"
  doneParentScopes :: "int set"
  rangeCount :: nat

section \<open>Scope indexer\<close>

text \<open>\<open>strings.Split(s, "\n")\<close>: always at least one segment.\<close>

fun splitNewline :: "string \<Rightarrow> string list" where
  "splitNewline [] = [[]]"
| "splitNewline (c # cs) =
     (if c = CHR 0x0A then [] # splitNewline cs
      else (case splitNewline cs of
              [] \<Rightarrow> [[c]]
            | l # ls \<Rightarrow> (c # l) # ls))"

text \<open>
  The loop of \<open>walkTree\<close> that marks every line of \<open>[startLine, endLine]\<close> below
  \<open>len(tc.scopes)\<close> as belonging to scope \<open>startLine\<close>.
\<close>

definition markScopes :: "nat \<Rightarrow> nat \<Rightarrow> int set list \<Rightarrow> int set list" where
  "markScopes s e sc =
     fold (\<lambda>i acc. acc[i := insert (int s) (acc ! i)]) [s ..< min (Suc e) (length sc)] sc"

text \<open>
  \<open>walkTree\<close>: returns at once when the start line is outside \<open>tc.nodes\<close> (its children
  are then not visited); otherwise appends the node to \<open>nodes[startLine]\<close>, overwrites
  \<open>header[startLine]\<close> with \<open>[size, startLine, endLine]\<close> when \<open>size > 0\<close>, marks the
  scopes and recurses into the named children in order.  The returned pair is unused
  by every caller and is dropped.
\<close>

fun walkTree :: "node \<Rightarrow> TreeContext \<Rightarrow> TreeContext" where
  "walkTree (Node s e cs) tc =
     (let startLine = int s; endLine = int e; size = endLine - startLine in
      if startLine < 0 \<or> startLine \<ge> int (length (nodes tc)) then tc
      else
        let tc1 = tc\<lparr>nodes := (nodes tc)[s := (nodes tc ! s) @ [Node s e cs]]\<rparr>;
            tc2 = (if size > 0 \<and> startLine < int (length (header tc1))
                   then tc1\<lparr>header := (header tc1)[s := [size, startLine, endLine]]\<rparr>
                   else tc1);
            tc3 = tc2\<lparr>scopes := markScopes s e (scopes tc2)\<rparr>
        in fold walkTree cs tc3)"

text \<open>
  One iteration of the second loop of \<open>postWalkProcessing\<close> (the verbose printing is
  left out).  The slice reads \<open>headerSlice[0..2]\<close> are guarded by the length tests of
  the source.
\<close>

definition finalizeHeader :: "int \<Rightarrow> nat \<Rightarrow> int list \<Rightarrow> int list" where
  "finalizeHeader hmax i headerSlice =
     (if length headerSlice < 2 then [int i, int i + 1]
      else
        let size = headerSlice ! 0;
            headStart = headerSlice ! 1;
            headEnd0 = (if length headerSlice > 2 then headerSlice ! 2 else headerSlice ! 1 + 1);
            headEnd = (if size > hmax then headStart + hmax else headEnd0)
        in [headStart, headEnd])"

text \<open>
  \<open>postWalkProcessing\<close>: for \<open>i\<close> from 0 below \<open>numLines\<close>.  It is only called from
  \<open>NewTreeContext\<close>, where \<open>numLines = len(header)\<close>, so \<open>tc.header[i]\<close> is in range.
\<close>

definition postWalkProcessing :: "TreeContext \<Rightarrow> TreeContext" where
  "postWalkProcessing tc =
     tc\<lparr>header := fold (\<lambda>i h. h[i := finalizeHeader (headerMax tc) i (h ! i)])
                      [0 ..< nat (numLines tc)] (header tc)\<rparr>"

text \<open>
  The context as \<open>NewTreeContext\<close> builds it before the walk.  The three structural
  arrays have \<open>len(lines) + 1\<close> entries; \<open>header[i]\<close> starts as \<open>[]int{0, 0}\<close>.
\<close>

definition initContext :: "string \<Rightarrow> TreeContextOptions \<Rightarrow> TreeContext" where
  "initContext source options =
     (let lns = splitNewline source; n = length lns in
      \<lparr> color = Color options,
        lineNumber = ShowLineNumber options,
        lastLine = ShowLastLine options,
        margin = MarginPadding options,
        markLOIs = MarkLinesOfInterest options,
        headerMax = HeaderMax options,
        loiPad = LinesOfInterestPadding options,
        showTopOfFileParentScope = ShowTopOfFileParentScope options,
        parentContext = ShowParentContext options,
        childContext = ShowChildContext options,
        lines = lns,
        numLines = int n + 1,
        outputLines = Map.empty,
        scopes = replicate (n + 1) {},
        header = replicate (n + 1) [0, 0],
        nodes = replicate (n + 1) [],
        showLines = {},
        linesOfInterest = {},
        doneParentScopes = {},
        rangeCount = 0 \<rparr>)"

text \<open>
  \<open>NewTreeContext\<close>, with the parse tree of the external parser given as \<open>rootNode\<close>
  (language detection and parsing are outside this file).
\<close>

definition NewTreeContext :: "string \<Rightarrow> node \<Rightarrow> TreeContextOptions \<Rightarrow> TreeContext" where
  "NewTreeContext source rootNode options =
     postWalkProcessing (walkTree rootNode (initContext source options))"

section \<open>Errors\<close>

text \<open>
  Panics of the program are values: \<open>MustCompilePanic\<close> is the panic of
  \<open>regexp.MustCompile\<close> on a pattern that does not compile (the \<open>InvalidPattern\<close> of the
  specification), \<open>IndexOutOfRange\<close> the runtime panic of a slice index out of range.
  No function of the source recovers from a panic, so a panic ends every caller; that
  is how \<open>bindE\<close> sequences two steps.  \<open>OutOfFuel\<close> is not a behaviour of the program: the recursion of
  \<open>addParentScopes\<close> is modelled with a bound on its depth, and running into the bound
  is reported by this value (it is shown below that the bound used is never reached).
\<close>

datatype error = MustCompilePanic | IndexOutOfRange | OutOfFuel

fun bindE :: "error + 'a \<Rightarrow> ('a \<Rightarrow> error + 'b) \<Rightarrow> error + 'b" where
  "bindE (Inl e) f = Inl e"
| "bindE (Inr x) f = f x"

fun foldE :: "('a \<Rightarrow> 's \<Rightarrow> error + 's) \<Rightarrow> 'a list \<Rightarrow> 's \<Rightarrow> error + 's" where
  "foldE f [] s = Inr s"
| "foldE f (x # xs) s = bindE (f x s) (foldE f xs)"

section \<open>Match engine\<close>

text \<open>
  The regular-expression library is external: \<open>compile\<close> is \<open>regexp.Compile\<close> (\<open>None\<close>
  when the pattern does not compile, where \<open>MustCompile\<close> panics), \<open>findStringIndex\<close>
  says whether \<open>FindStringIndex\<close> is not nil, \<open>replaceAllStringFunc\<close> is the method of
  that name.
\<close>

record 're regexpLib =
  compile :: "string \<Rightarrow> 're option"
  findStringIndex :: "'re \<Rightarrow> string \<Rightarrow> bool"
  replaceAllStringFunc :: "'re \<Rightarrow> string \<Rightarrow> (string \<Rightarrow> string) \<Rightarrow> string"

definition highlightMatch :: "string \<Rightarrow> string" where
  "highlightMatch m = [CHR 0x1B] @ ''[1;31m'' @ m @ [CHR 0x1B] @ ''[0m''"

definition grepLine :: "'re regexpLib \<Rightarrow> 're \<Rightarrow> bool \<Rightarrow> nat \<times> string
    \<Rightarrow> int set \<times> (int \<rightharpoonup> string) \<Rightarrow> int set \<times> (int \<rightharpoonup> string)" where
  "grepLine lib re col = (\<lambda>(i, line) (found, out).
     if findStringIndex lib re line
     then (insert (int i) found,
           if col then out(int i \<mapsto> replaceAllStringFunc lib re line highlightMatch) else out)
     else (found, out))"

text \<open>
  \<open>Grep\<close> has one result, the set of matching lines, and no error result: when the
  pattern does not compile, \<open>regexp.MustCompile\<close> panics.  The context the call leaves
  behind is the second component, also when it panics.
\<close>

definition Grep :: "'re regexpLib \<Rightarrow> string \<Rightarrow> bool \<Rightarrow> TreeContext
    \<Rightarrow> (error + int set) \<times> TreeContext" where
  "Grep lib pat ignoreCase tc =
     (let pat1 = (if ignoreCase then ''(?i)'' @ pat else pat) in
      case compile lib pat1 of
        None \<Rightarrow> (Inl MustCompilePanic, tc)
      | Some re \<Rightarrow>
          (let (found, out) = fold (grepLine lib re (color tc))
                                (zip [0 ..< length (lines tc)] (lines tc)) ({}, outputLines tc)
           in (Inr found, tc\<lparr>outputLines := out\<rparr>)))"

section \<open>Context expander\<close>

definition AddLinesOfInterest :: "int set \<Rightarrow> TreeContext \<Rightarrow> TreeContext" where
  "AddLinesOfInterest lineNums tc = tc\<lparr>linesOfInterest := linesOfInterest tc \<union> lineNums\<rparr>"

text \<open>
  Go leaves the order of a \<open>range\<close> over a map to the runtime, which randomises it.
  A \<open>rangeOrder\<close> gives, for the n-th such loop of a run, the order in which the keys
  of the map are visited; a possible order lists every key of a finite map once.
\<close>

type_synonym rangeOrder = "nat \<Rightarrow> int set \<Rightarrow> int list"

definition validOrder :: "rangeOrder \<Rightarrow> bool" where
  "validOrder ord = (\<forall>n S. finite S \<longrightarrow> set (ord n S) = S \<and> distinct (ord n S))"

definition rangeKeys :: "rangeOrder \<Rightarrow> int set \<Rightarrow> TreeContext \<Rightarrow> int list \<times> TreeContext" where
  "rangeKeys ord m tc = (ord (rangeCount tc) m, tc\<lparr>rangeCount := Suc (rangeCount tc)\<rparr>)"

text \<open>\<open>getLastLineOfScope\<close>: the largest end row of the nodes starting on line \<open>i\<close>.\<close>

definition getLastLineOfScope :: "TreeContext \<Rightarrow> int \<Rightarrow> int" where
  "getLastLineOfScope tc i =
     (if i < 0 \<or> i \<ge> int (length (nodes tc)) \<or> length (nodes tc ! nat i) = 0 then i
      else fold (\<lambda>nd lastLn. if int (endRow nd) > lastLn then int (endRow nd) else lastLn)
             (nodes tc ! nat i) 0)"

text \<open>
  The body of the loop of \<open>addParentScopes\<close> for one scope \<open>lineNum\<close>, with the recursive
  call given as \<open>recurse\<close>.  \<open>tc.header[lineNum]\<close> is not guarded in the source, so an index
  outside \<open>tc.header\<close> panics.
\<close>

definition revealHeader :: "(int \<Rightarrow> TreeContext \<Rightarrow> error + TreeContext) \<Rightarrow> int \<Rightarrow> TreeContext
    \<Rightarrow> error + TreeContext" where
  "revealHeader recurse lineNum tc =
     (if lineNum < 0 \<or> lineNum \<ge> int (length (header tc)) then Inl IndexOutOfRange
      else
        let headerSlice = header tc ! nat lineNum in
        if length headerSlice \<ge> 2 then
          let headStart = headerSlice ! 0;
              headEnd = headerSlice ! 1;
              tc1 = (if headStart > 0 \<or> showTopOfFileParentScope tc
                     then tc\<lparr>showLines := showLines tc \<union> {headStart ..< min headEnd (numLines tc)}\<rparr>
                     else tc)
          in if lastLine tc1 then recurse (getLastLineOfScope tc1 lineNum) tc1 else Inr tc1
        else Inr tc)"

text \<open>
  \<open>addParentScopes\<close>.  The first argument after the order bounds the depth of the
  recursion.
\<close>

primrec addParentScopes :: "rangeOrder \<Rightarrow> nat \<Rightarrow> int \<Rightarrow> TreeContext \<Rightarrow> error + TreeContext" where
  "addParentScopes ord 0 i tc = Inl OutOfFuel"
| "addParentScopes ord (Suc fuel) i tc =
     (if i < 0 \<or> i \<ge> int (length (scopes tc)) then Inr tc
      else if i \<in> doneParentScopes tc then Inr tc
      else
        let tc1 = tc\<lparr>doneParentScopes := insert i (doneParentScopes tc)\<rparr>;
            (keys, tc2) = rangeKeys ord (scopes tc1 ! nat i) tc1
        in foldE (revealHeader (addParentScopes ord fuel)) keys tc2)"

text \<open>\<open>findAllChildren\<close>: the node and all its named descendants, in pre-order.\<close>

fun findAllChildren :: "node \<Rightarrow> node list" where
  "findAllChildren (Node s e cs) = Node s e cs # concat (map findAllChildren cs)"

definition nodeSize :: "node \<Rightarrow> int" where
  "nodeSize nd = int (endRow nd) - int (startRow nd)"

text \<open>
  \<open>sortNodesBySize\<close> is an exchange sort: for each position \<open>i\<close>, the inner loop swaps
  \<open>nodes[i]\<close> with every later \<open>nodes[j]\<close> that is strictly larger.  \<open>exchangePass x ys\<close>
  is that inner loop with \<open>x\<close> at position \<open>i\<close> and \<open>ys\<close> behind it.
\<close>

fun exchangePass :: "node \<Rightarrow> node list \<Rightarrow> node \<times> node list" where
  "exchangePass x [] = (x, [])"
| "exchangePass x (y # ys) =
     (if nodeSize y > nodeSize x
      then (let (m, r) = exchangePass y ys in (m, x # r))
      else (let (m, r) = exchangePass x ys in (m, y # r)))"

text \<open>
  The outer loop runs once for every position of the slice; \<open>sortFrom n xs\<close> is what
  \<open>n\<close> more rounds make of the part \<open>xs\<close> from the current position on.
\<close>

primrec sortFrom :: "nat \<Rightarrow> node list \<Rightarrow> node list" where
  "sortFrom 0 xs = xs"
| "sortFrom (Suc n) xs =
     (case xs of
        [] \<Rightarrow> []
      | x # rest \<Rightarrow> (let (m, r) = exchangePass x rest in m # sortFrom n r))"

definition sortNodesBySize :: "node list \<Rightarrow> node list" where
  "sortNodesBySize xs = sortFrom (length xs) xs"

text \<open>
  The budget of \<open>addChildContext\<close>: \<open>int(float64(size)*0.10 + 0.5)\<close> clamped to
  \<open>[5, 25]\<close>.  It is only computed for \<open>size \<ge> 5\<close>.  The double nearest to 0.10 exceeds
  0.10 by a relative error of \<open>2^-54\<close>, so the rounded product is the exact tenth
  whenever that is a multiple of one half, and the truncation of the sum is
  \<open>(size + 5) div 10\<close> for every size below \<open>2^50\<close>; beyond 254 the clamp gives 25 anyway.
\<close>

definition computedMax :: "int \<Rightarrow> int" where
  "computedMax sz =
     (let c = (sz + 5) div 10 in
      if c < 5 then 5 else if c > 25 then 25 else c)"

text \<open>
  The loop over the sorted descendants: it stops as soon as more than \<open>limit\<close> lines are
  shown, and otherwise expands the ancestors of the descendant's start line.
\<close>

fun childLoop :: "rangeOrder \<Rightarrow> nat \<Rightarrow> int \<Rightarrow> node list \<Rightarrow> TreeContext \<Rightarrow> error + TreeContext" where
  "childLoop ord fuel limit [] tc = Inr tc"
| "childLoop ord fuel limit (child # rest) tc =
     (if int (card (showLines tc)) > limit then Inr tc
      else bindE (addParentScopes ord fuel (int (startRow child)) tc)
             (childLoop ord fuel limit rest))"

definition addChildContext :: "rangeOrder \<Rightarrow> nat \<Rightarrow> int \<Rightarrow> TreeContext \<Rightarrow> error + TreeContext" where
  "addChildContext ord fuel i tc =
     (if i < 0 \<or> i \<ge> int (length (nodes tc)) then Inr tc
      else if length (nodes tc ! nat i) = 0 then Inr tc
      else
        let lastLn = getLastLineOfScope tc i;
            size = lastLn - i
        in if size < 0 then Inr tc
           else if size < 5
           then Inr (tc\<lparr>showLines := showLines tc \<union> {i ..< min (lastLn + 1) (numLines tc)}\<rparr>)
           else
             let children = sortNodesBySize (concat (map findAllChildren (nodes tc ! nat i)));
                 currentlyShowing = int (card (showLines tc))
             in childLoop ord fuel (currentlyShowing + computedMax size) children tc)"

text \<open>
  \<open>mapKeysSorted\<close>: the keys of the map in ascending order (the source sorts the keys,
  which are distinct, by exchanges).
\<close>

definition mapKeysSorted :: "int set \<Rightarrow> int list" where
  "mapKeysSorted m = sorted_list_of_set m"

text \<open>
  \<open>closeSmallGaps\<close>.  \<open>blank line\<close> stands for \<open>strings.TrimSpace(line) == ""\<close> of the
  standard library.  The first loop runs over the consecutive pairs of the sorted shown
  lines, the second over the source lines in order, on the set being built.
\<close>

definition fillGap :: "int \<times> int \<Rightarrow> int set \<Rightarrow> int set" where
  "fillGap = (\<lambda>(curr, next) closedShow.
     if next - curr = 2 then insert (curr + 1) closedShow else closedShow)"

definition pickBlank :: "(string \<Rightarrow> bool) \<Rightarrow> TreeContext \<Rightarrow> nat \<Rightarrow> int set \<Rightarrow> int set" where
  "pickBlank blank tc i closedShow =
     (if int i \<in> closedShow
      then (if \<not> blank (lines tc ! i) \<and> int i < numLines tc - 2
            then (if length (lines tc) > i + 1 \<and> blank (lines tc ! (i + 1))
                  then insert (int i + 1) closedShow else closedShow)
            else closedShow)
      else closedShow)"

definition closeSmallGaps :: "(string \<Rightarrow> bool) \<Rightarrow> TreeContext \<Rightarrow> TreeContext" where
  "closeSmallGaps blank tc =
     (let sortedShow = mapKeysSorted (showLines tc);
          closed1 = fold fillGap (zip sortedShow (tl sortedShow)) (showLines tc);
          closed2 = fold (pickBlank blank tc) [0 ..< length (lines tc)] closed1
      in tc\<lparr>showLines := closed2\<rparr>)"

text \<open>
  The passes of \<open>AddContext\<close> one by one.  The seeding and the padding loops also range
  over maps, but only insert keys into a set, so they are written as set operations.
\<close>

definition seedShowLines :: "TreeContext \<Rightarrow> TreeContext" where
  "seedShowLines tc = tc\<lparr>showLines := showLines tc \<union> linesOfInterest tc\<rparr>"

definition padShowLines :: "TreeContext \<Rightarrow> TreeContext" where
  "padShowLines tc =
     (if loiPad tc > 0
      then tc\<lparr>showLines := showLines tc \<union>
             (\<Union>line \<in> showLines tc.
                {nl \<in> {line - loiPad tc .. line + loiPad tc}. \<not> (nl < 0 \<or> nl \<ge> numLines tc)})\<rparr>
      else tc)"

definition addBottomLine :: "rangeOrder \<Rightarrow> nat \<Rightarrow> TreeContext \<Rightarrow> error + TreeContext" where
  "addBottomLine ord fuel tc =
     (if lastLine tc
      then (let bottomLine = numLines tc - 2
            in addParentScopes ord fuel bottomLine (tc\<lparr>showLines := insert bottomLine (showLines tc)\<rparr>))
      else Inr tc)"

definition addParentContexts :: "rangeOrder \<Rightarrow> nat \<Rightarrow> TreeContext \<Rightarrow> error + TreeContext" where
  "addParentContexts ord fuel tc =
     (if parentContext tc
      then (let (keys, tc1) = rangeKeys ord (linesOfInterest tc) tc
            in foldE (addParentScopes ord fuel) keys tc1)
      else Inr tc)"

definition addChildContexts :: "rangeOrder \<Rightarrow> nat \<Rightarrow> TreeContext \<Rightarrow> error + TreeContext" where
  "addChildContexts ord fuel tc =
     (if childContext tc
      then (let (keys, tc1) = rangeKeys ord (linesOfInterest tc) tc
            in foldE (addChildContext ord fuel) keys tc1)
      else Inr tc)"

definition addMargin :: "TreeContext \<Rightarrow> TreeContext" where
  "addMargin tc =
     (if margin tc > 0
      then tc\<lparr>showLines := showLines tc \<union> {0 ..< min (margin tc) (numLines tc)}\<rparr>
      else tc)"

text \<open>
  \<open>AddContext\<close>.  Every top-level call of \<open>addParentScopes\<close> may nest as deep as there
  are lines not yet expanded, which is at most \<open>len(tc.scopes)\<close>.
\<close>

definition AddContext :: "rangeOrder \<Rightarrow> (string \<Rightarrow> bool) \<Rightarrow> TreeContext \<Rightarrow> error + TreeContext" where
  "AddContext ord blank tc =
     (if linesOfInterest tc = {} then Inr tc
      else
        let fuel = Suc (length (scopes tc)) in
        bindE (addBottomLine ord fuel (padShowLines (seedShowLines tc))) (\<lambda>tc3.
        bindE (addParentContexts ord fuel tc3) (\<lambda>tc4.
        bindE (addChildContexts ord fuel tc4) (\<lambda>tc5.
        Inr (closeSmallGaps blank (addMargin tc5))))))"

section \<open>Renderer\<close>

text \<open>
  What \<open>Format\<close> writes to its builder, one item per write inside the loop: the
  ellipsis marker, or a shown line with its index, spacer and text.
\<close>

datatype outputItem = Ellipsis | ShownLine nat string string

definition lineOfInterestSpacer :: "TreeContext \<Rightarrow> nat \<Rightarrow> string" where
  "lineOfInterestSpacer tc i =
     (if int i \<in> linesOfInterest tc \<and> markLOIs tc
      then (if color tc
            then [CHR 0x1B] @ ''[31m'' @ [CHR 0xE2, CHR 0x96, CHR 0x88] @ [CHR 0x1B] @ ''[0m''
            else [CHR 0xE2, CHR 0x96, CHR 0x88])
      else [CHR 0xE2, CHR 0x94, CHR 0x82])"

definition highlightedOrOriginalLine :: "TreeContext \<Rightarrow> nat \<Rightarrow> string \<Rightarrow> string" where
  "highlightedOrOriginalLine tc i original =
     (case outputLines tc (int i) of Some hl \<Rightarrow> hl | None \<Rightarrow> original)"

definition formatStep :: "TreeContext \<Rightarrow> nat \<times> string \<Rightarrow> outputItem list \<times> bool
    \<Rightarrow> outputItem list \<times> bool" where
  "formatStep tc = (\<lambda>(i, line) (sb, printEllipsis).
     if int i \<notin> showLines tc
     then (if printEllipsis then (sb @ [Ellipsis], False) else (sb, printEllipsis))
     else (sb @ [ShownLine i (lineOfInterestSpacer tc i) (highlightedOrOriginalLine tc i line)],
           True))"

definition formatLoop :: "TreeContext \<Rightarrow> outputItem list" where
  "formatLoop tc =
     fst (fold (formatStep tc) (zip [0 ..< length (lines tc)] (lines tc))
            ([], 0 \<notin> showLines tc))"

text \<open>The items of the output of \<open>Format\<close>: none when nothing is shown.\<close>

definition FormatItems :: "TreeContext \<Rightarrow> outputItem list" where
  "FormatItems tc = (if showLines tc = {} then [] else formatLoop tc)"

text \<open>\<open>%3d\<close> of a natural number: decimal digits, padded with spaces to width 3.\<close>

function decimal :: "nat \<Rightarrow> string" where
  "decimal n = (if n < 10 then [char_of (48 + n)]
                else decimal (n div 10) @ [char_of (48 + n mod 10)])"
  by pat_completeness auto
termination
  by (relation "measure id") auto

definition pad3 :: "string \<Rightarrow> string" where
  "pad3 s = replicate (3 - length s) (CHR '' '') @ s"

definition renderItem :: "TreeContext \<Rightarrow> outputItem \<Rightarrow> string" where
  "renderItem tc item =
     (case item of
        Ellipsis \<Rightarrow> [CHR 0xE2, CHR 0x8B, CHR 0xAE] @ ''...'' @ [CHR 0x0A]
      | ShownLine i spacer oline \<Rightarrow>
          (if lineNumber tc then pad3 (decimal (i + 1)) @ spacer @ oline @ [CHR 0x0A]
           else spacer @ oline @ [CHR 0x0A]))"

definition Format :: "TreeContext \<Rightarrow> string" where
  "Format tc =
     (if showLines tc = {} then []
      else (if color tc then [CHR 0x1B] @ ''[0m'' @ [CHR 0x0A] else [])
           @ concat (map (renderItem tc) (formatLoop tc)))"

section \<open>Notions used to state the properties\<close>

text \<open>
  The nodes \<open>walkTree\<close> visits, in the order of the visit (pre-order), when \<open>tc.nodes\<close>
  has \<open>n\<close> entries: a node that starts at or beyond \<open>n\<close> is left at once, with its
  subtree.
\<close>

fun visited :: "nat \<Rightarrow> node \<Rightarrow> node list" where
  "visited n (Node s e cs) =
     (if s \<ge> n then [] else Node s e cs # concat (map (visited n) cs))"

text \<open>The header candidate \<open>[size, startLine, endLine]\<close> of a node.\<close>

definition headerCandidate :: "node \<Rightarrow> int list" where
  "headerCandidate nd = [nodeSize nd, int (startRow nd), int (endRow nd)]"

text \<open>The writes to \<open>tc.header\<close> made for a sequence of visited nodes, in order.\<close>

definition headerWrites :: "node list \<Rightarrow> int list list \<Rightarrow> int list list" where
  "headerWrites vs hdr =
     fold (\<lambda>nd h. if nodeSize nd > 0 \<and> startRow nd < length h
                   then h[startRow nd := headerCandidate nd] else h) vs hdr"

text \<open>
  The rendering as the specification words it: a hidden line is the start of a maximal
  run of hidden lines when it is line 0 or the line before it is shown; a shown line
  gives its own item, the first line of a hidden run gives the one marker of the run,
  and the other hidden lines give nothing.
\<close>

definition hiddenRunStart :: "TreeContext \<Rightarrow> nat \<Rightarrow> bool" where
  "hiddenRunStart tc i = (int i \<notin> showLines tc \<and> (i = 0 \<or> int i - 1 \<in> showLines tc))"

definition itemsOfLine :: "TreeContext \<Rightarrow> nat \<Rightarrow> outputItem list" where
  "itemsOfLine tc i =
     (if int i \<in> showLines tc
      then [ShownLine i (lineOfInterestSpacer tc i)
              (highlightedOrOriginalLine tc i (lines tc ! i))]
      else if hiddenRunStart tc i then [Ellipsis] else [])"

section \<open>Example inputs\<close>

definition exampleOptions :: TreeContextOptions where
  "exampleOptions =
     \<lparr> Color = False, ShowLineNumber = False, ShowParentContext = False,
       ShowChildContext = False, ShowLastLine = False, MarginPadding = 0,
       MarkLinesOfInterest = False, HeaderMax = 10, ShowTopOfFileParentScope = False,
       LinesOfInterestPadding = 0 \<rparr>"

text \<open>A file of three lines, \<open>a\<close>, \<open>b\<close> and \<open>c\<close>.\<close>

definition threeLines :: string where
  "threeLines = ''a'' @ [CHR 0x0A] @ ''b'' @ [CHR 0x0A] @ ''c''"

text \<open>A statement over lines 0 to 2 whose first child starts on line 0 too and ends on line 1.\<close>

definition nestedTree :: node where
  "nestedTree = Node 0 2 [Node 0 1 []]"

text \<open>A block over lines 0 to 2 with a one-line child on line 1.\<close>

definition leafTree :: node where
  "leafTree = Node 0 2 [Node 1 1 []]"

text \<open>
  A regular-expression library for the examples: the pattern \<open>(\<close> does not compile,
  every other pattern matches the lines equal to it.
\<close>

definition exampleRegexp :: "string regexpLib" where
  "exampleRegexp =
     \<lparr> compile = (\<lambda>p. if p = ''('' then None else Some p),
       findStringIndex = (\<lambda>re line. re = line),
       replaceAllStringFunc = (\<lambda>re line f. f line) \<rparr>"

text \<open>\<open>strings.TrimSpace(s) == ""\<close> on ASCII text: every byte is white space.\<close>

definition blankASCII :: "string \<Rightarrow> bool" where
  "blankASCII s =
     list_all (\<lambda>c. c \<in> {CHR 0x09, CHR 0x0A, CHR 0x0B, CHR 0x0C, CHR 0x0D, CHR 0x20}) s"

text \<open>A file of five lines: \<open>x\<close>, two empty lines, \<open>y\<close> and \<open>z\<close>; line 0 is of interest.\<close>

definition fiveLines :: string where
  "fiveLines = ''x'' @ [CHR 0x0A, CHR 0x0A, CHR 0x0A] @ ''y'' @ [CHR 0x0A] @ ''z''"

definition fiveLinesTree :: node where
  "fiveLinesTree = Node 0 4 [Node 0 0 [], Node 3 3 [], Node 4 4 []]"

definition fiveLinesSeeded :: TreeContext where
  "fiveLinesSeeded =
     seedShowLines (AddLinesOfInterest {0}
       (NewTreeContext fiveLines fiveLinesTree exampleOptions))"

text \<open>A file of seven lines \<open>a\<close> to \<open>g\<close> with lines 0, 1, 5 and 6 to show.\<close>

definition sevenLines :: string where
  "sevenLines = ''a'' @ [CHR 0x0A] @ ''b'' @ [CHR 0x0A] @ ''c'' @ [CHR 0x0A] @ ''d''
     @ [CHR 0x0A] @ ''e'' @ [CHR 0x0A] @ ''f'' @ [CHR 0x0A] @ ''g''"

definition sevenLinesShown :: TreeContext where
  "sevenLinesShown =
     (NewTreeContext sevenLines (Node 0 6 []) exampleOptions)\<lparr>showLines := {0, 1, 5, 6}\<rparr>"

section \<open>Sequences of calls\<close>

text \<open>
  A caller's use of a context: any sequence of \<open>AddLinesOfInterest\<close> and \<open>AddContext\<close>
  calls.  A panic ends the run.
\<close>

datatype call = CallAddLinesOfInterest "int set" | CallAddContext

fun runCalls :: "rangeOrder \<Rightarrow> (string \<Rightarrow> bool) \<Rightarrow> call list \<Rightarrow> TreeContext
    \<Rightarrow> error + TreeContext" where
  "runCalls ord blank [] tc = Inr tc"
| "runCalls ord blank (CallAddLinesOfInterest lineNums # rest) tc =
     runCalls ord blank rest (AddLinesOfInterest lineNums tc)"
| "runCalls ord blank (CallAddContext # rest) tc =
     bindE (AddContext ord blank tc) (runCalls ord blank rest)"

text \<open>
  The use of a context in \<open>cmd/main.go\<close> (there with the pattern \<open>main\<close>, case not
  ignored): \<open>Grep\<close>, \<open>AddLinesOfInterest\<close> of what was found, \<open>AddContext\<close>, \<open>Format\<close>.
  Nothing recovers from a panic, so when a step panics the steps after it do not run
  and the caller has no output.
\<close>

definition grepAndFormat :: "'re regexpLib \<Rightarrow> rangeOrder \<Rightarrow> (string \<Rightarrow> bool) \<Rightarrow> string \<Rightarrow> bool
    \<Rightarrow> TreeContext \<Rightarrow> error + string" where
  "grepAndFormat lib ord blank pat ignoreCase tc =
     (case Grep lib pat ignoreCase tc of
        (Inl e, tc1) \<Rightarrow> Inl e
      | (Inr found, tc1) \<Rightarrow>
          bindE (AddContext ord blank (AddLinesOfInterest found tc1))
            (\<lambda>tc2. Inr (Format tc2)))"

section \<open>Invariants of the context expander\<close>

text \<open>The fields no expansion pass writes to.\<close>

definition sameFields :: "TreeContext \<Rightarrow> TreeContext \<Rightarrow> bool" where
  "sameFields tc tc' \<longleftrightarrow>
     color tc' = color tc \<and> lineNumber tc' = lineNumber tc \<and> lastLine tc' = lastLine tc \<and>
     margin tc' = margin tc \<and> markLOIs tc' = markLOIs tc \<and> headerMax tc' = headerMax tc \<and>
     loiPad tc' = loiPad tc \<and>
     showTopOfFileParentScope tc' = showTopOfFileParentScope tc \<and>
     parentContext tc' = parentContext tc \<and> childContext tc' = childContext tc \<and>
     lines tc' = lines tc \<and> numLines tc' = numLines tc \<and> outputLines tc' = outputLines tc \<and>
     scopes tc' = scopes tc \<and> header tc' = header tc \<and> nodes tc' = nodes tc \<and>
     linesOfInterest tc' = linesOfInterest tc"

text \<open>
  \<open>grows tc tc'\<close>: from \<open>tc\<close> to \<open>tc'\<close> the shown lines and the expanded lines have only
  grown, and nothing else has changed but the count of map iterations.
\<close>

definition grows :: "TreeContext \<Rightarrow> TreeContext \<Rightarrow> bool" where
  "grows tc tc' \<longleftrightarrow>
     showLines tc \<subseteq> showLines tc' \<and> doneParentScopes tc \<subseteq> doneParentScopes tc' \<and>
     sameFields tc tc'"

text \<open>
  The structural index is well formed: every scope set is finite and holds only
  indices of \<open>tc.header\<close>.
\<close>

definition wfIndex :: "TreeContext \<Rightarrow> bool" where
  "wfIndex tc \<longleftrightarrow>
     (\<forall>i < length (scopes tc). finite (scopes tc ! i) \<and>
        (\<forall>s \<in> scopes tc ! i. 0 \<le> s \<and> s < int (length (header tc))))"

definition scopesOK :: "nat \<Rightarrow> int set list \<Rightarrow> bool" where
  "scopesOK n sc \<longleftrightarrow>
     (\<forall>i < length sc. finite (sc ! i) \<and> (\<forall>x \<in> sc ! i. 0 \<le> x \<and> x < int n))"

text \<open>The number of lines of the index whose ancestors are not yet expanded.\<close>

definition pending :: "TreeContext \<Rightarrow> nat" where
  "pending tc = card ({0 ..< int (length (scopes tc))} - doneParentScopes tc)"

definition fueled :: "nat \<Rightarrow> TreeContext \<Rightarrow> bool" where
  "fueled fuel tc \<longleftrightarrow> wfIndex tc \<and> length (scopes tc) < fuel"

text \<open>Line \<open>i\<close> needs no ancestor expansion any more: it is outside the index or done.\<close>

definition marked :: "int \<Rightarrow> TreeContext \<Rightarrow> bool" where
  "marked i tc \<longleftrightarrow> (0 \<le> i \<and> i < int (length (scopes tc)) \<longrightarrow> i \<in> doneParentScopes tc)"

text \<open>What a call of \<open>AddContext\<close> with lines of interest leaves behind.\<close>

definition expanded :: "TreeContext \<Rightarrow> bool" where
  "expanded tc \<longleftrightarrow>
     linesOfInterest tc \<subseteq> showLines tc
     \<and> (lastLine tc \<longrightarrow> numLines tc - 2 \<in> showLines tc \<and> marked (numLines tc - 2) tc)
     \<and> (parentContext tc \<longrightarrow> (\<forall>i \<in> linesOfInterest tc. marked i tc))
     \<and> (margin tc > 0 \<longrightarrow> {0 ..< min (margin tc) (numLines tc)} \<subseteq> showLines tc)"


section \<open>Example runs\<close>

text \<open>Two orders the runtime may pick for every map: ascending keys, descending keys.\<close>

definition ascendingOrder :: rangeOrder where
  "ascendingOrder n m = sorted_list_of_set m"

definition descendingOrder :: rangeOrder where
  "descendingOrder n m = rev (sorted_list_of_set m)"

text \<open>Every pass switched on.\<close>

definition allOptions :: TreeContextOptions where
  "allOptions =
     \<lparr> Color = False, ShowLineNumber = True, ShowParentContext = True,
       ShowChildContext = True, ShowLastLine = True, MarginPadding = 1,
       MarkLinesOfInterest = True, HeaderMax = 10, ShowTopOfFileParentScope = True,
       LinesOfInterestPadding = 1 \<rparr>"

text \<open>
  A file of 41 (empty) lines: a top-level node over lines 0 to 40 with two blocks,
  lines 5 to 20 and lines 21 to 36, each with one nested block.  Only the descendant
  preview is switched on, headers are cut to 4 lines, and the first lines of the two
  blocks are the lines of interest.
\<close>

definition twoBlocksSource :: string where
  "twoBlocksSource = replicate 40 (CHR 0x0A)"

definition twoBlocksTree :: node where
  "twoBlocksTree = Node 0 40 [Node 5 20 [Node 10 19 []], Node 21 36 [Node 25 35 []]]"

definition twoBlocksOptions :: TreeContextOptions where
  "twoBlocksOptions =
     \<lparr> Color = False, ShowLineNumber = False, ShowParentContext = False,
       ShowChildContext = True, ShowLastLine = False, MarginPadding = 0,
       MarkLinesOfInterest = False, HeaderMax = 4, ShowTopOfFileParentScope = True,
       LinesOfInterestPadding = 0 \<rparr>"

definition twoBlocks :: TreeContext where
  "twoBlocks =
     AddLinesOfInterest {5, 21} (NewTreeContext twoBlocksSource twoBlocksTree twoBlocksOptions)"

text \<open>The descendant preview of line 5 alone, on the seeded context.\<close>

definition twoBlocksChild :: "error + TreeContext" where
  "twoBlocksChild = addChildContext ascendingOrder 43 5 (seedShowLines twoBlocks)"

text \<open>The seven-line file with a padding of one line and line 3 of interest.\<close>

definition paddedSeven :: TreeContext where
  "paddedSeven =
     AddLinesOfInterest {3}
       (NewTreeContext sevenLines (Node 0 6 [])
          (exampleOptions\<lparr>LinesOfInterestPadding := 1\<rparr>))"

text \<open>
  A file of six lines, \<open>a\<close>, an empty line, and \<open>b\<close> to \<open>e\<close>, with ancestor expansion
  but neither padding nor descendant preview; lines 0 and 3 are of interest.  One call,
  and a second call after it.
\<close>

definition sixLines :: string where
  "sixLines = ''a'' @ [CHR 0x0A, CHR 0x0A] @ ''b'' @ [CHR 0x0A] @ ''c'' @ [CHR 0x0A] @ ''d''
     @ [CHR 0x0A] @ ''e''"

definition sixLinesInterest :: TreeContext where
  "sixLinesInterest =
     AddLinesOfInterest {0, 3}
       (NewTreeContext sixLines (Node 0 5 [Node 3 3 []])
          (exampleOptions\<lparr>ShowParentContext := True\<rparr>))"

definition onceExpanded :: "error + TreeContext" where
  "onceExpanded = AddContext ascendingOrder blankASCII sixLinesInterest"

definition twiceExpanded :: "error + TreeContext" where
  "twiceExpanded = AddContext descendingOrder blankASCII (projr onceExpanded)"

section \<open>Properties of the scope indexer\<close>

lemma headerWrites_length [simp]: "length (headerWrites vs hdr) = length hdr"
  unfolding headerWrites_def by (induction vs arbitrary: hdr) auto

lemma headerWrites_append:
  "headerWrites (us @ vs) hdr = headerWrites vs (headerWrites us hdr)"
  by (simp add: headerWrites_def)

lemma walkTree_header_nodes:
  "header (walkTree t tc) = headerWrites (visited (length (nodes tc)) t) (header tc)
   \<and> length (nodes (walkTree t tc)) = length (nodes tc)"
proof (induction t arbitrary: tc)
  case (Node s e cs)
  have kids:
    "header (fold walkTree ks tc') =
       headerWrites (concat (map (visited (length (nodes tc'))) ks)) (header tc')
     \<and> length (nodes (fold walkTree ks tc')) = length (nodes tc')"
    if "set ks \<subseteq> set cs" for ks tc'
    using that
  proof (induction ks arbitrary: tc')
    case Nil
    show ?case by (simp add: headerWrites_def)
  next
    case (Cons k ks)
    then have k: "k \<in> set cs" and ks: "set ks \<subseteq> set cs" by auto
    show ?case
      using Node.IH[OF k, of tc'] Cons.IH[OF ks, of "walkTree k tc'"]
      by (simp add: headerWrites_append)
  qed
  show ?case
  proof (cases "s \<ge> length (nodes tc)")
    case True
    then show ?thesis by (simp add: headerWrites_def)
  next
    case False
    then show ?thesis
      using kids[OF subset_refl]
      by (simp add: Let_def headerWrites_def headerCandidate_def nodeSize_def)
  qed
qed

lemma headerWrites_last:
  "i < length hdr \<Longrightarrow>
   headerWrites vs hdr ! i =
     (case rev (filter (\<lambda>nd. startRow nd = i \<and> 0 < nodeSize nd) vs) of
        [] \<Rightarrow> hdr ! i
      | nd # _ \<Rightarrow> headerCandidate nd)"
proof (induction vs rule: rev_induct)
  case Nil
  then show ?case by (simp add: headerWrites_def)
next
  case (snoc v vs)
  have one: "headerWrites [v] h =
      (if nodeSize v > 0 \<and> startRow v < length h
       then h[startRow v := headerCandidate v] else h)" for h
    by (simp add: headerWrites_def)
  from snoc show ?case
    by (simp add: headerWrites_append one nth_list_update)
qed

text \<open>
  Claim C1, as the code has it.  \<open>walkTree\<close> overwrites \<open>header[startLine]\<close> for every
  visited node of positive size, without comparing sizes: after the traversal the
  header candidate of a line \<open>i\<close> is the candidate of the last node, in pre-order, that
  starts on \<open>i\<close> with a positive size, and the initial entry when there is none.
\<close>

theorem walkTree_header_is_last_write:
  assumes "i < length (header tc)"
  shows "header (walkTree t tc) ! i =
     (case rev (filter (\<lambda>nd. startRow nd = i \<and> 0 < nodeSize nd)
                  (visited (length (nodes tc)) t)) of
        [] \<Rightarrow> header tc ! i
      | nd # _ \<Rightarrow> headerCandidate nd)"
  using assms by (simp add: walkTree_header_nodes headerWrites_last)

theorem walkTree_header_is_last_write_witness:
  "(0::nat) < length (header (initContext threeLines exampleOptions))
   \<and> header (walkTree nestedTree (initContext threeLines exampleOptions)) ! 0
       = headerCandidate (Node 0 1 [])"
  using walkTree_header_is_last_write
          [of 0 "initContext threeLines exampleOptions" nestedTree]
  by (simp add: initContext_def threeLines_def nestedTree_def nodeSize_def)

text \<open>
  Claim C1 as stated fails: in \<open>nestedTree\<close> two nodes of positive size start on line
  0, of sizes 2 and 1; the candidate left for line 0 is that of the inner, smaller one.
\<close>

theorem walkTree_header_not_largest:
  "header (walkTree nestedTree (initContext threeLines exampleOptions)) ! 0
     = headerCandidate (Node 0 1 [])
   \<and> nodes (walkTree nestedTree (initContext threeLines exampleOptions)) ! 0
     = [Node 0 2 [Node 0 1 []], Node 0 1 []]
   \<and> nodeSize (Node 0 1 []) < nodeSize (Node 0 2 [Node 0 1 []])"
  by (simp add: initContext_def threeLines_def nestedTree_def nodeSize_def
        headerCandidate_def markScopes_def Let_def)

text \<open>
  Claim C6 at a failing input.  In the three-line file with \<open>leafTree\<close> no node of
  positive size starts on line 1, and yet the finalized header of line 1 is \<open>[0, 1)\<close>
  and not \<open>[1, 2)\<close>: every entry of \<open>header\<close> starts as \<open>[]int{0, 0}\<close>, of length 2, so
  the default branch of \<open>postWalkProcessing\<close> is never taken.
\<close>

theorem nonowner_header_is_0_1:
  "header (NewTreeContext threeLines leafTree exampleOptions) ! 1 = [0, 1]
   \<and> filter (\<lambda>nd. 0 < nodeSize nd)
        (nodes (NewTreeContext threeLines leafTree exampleOptions) ! 1) = []"
  by (simp add: NewTreeContext_def postWalkProcessing_def initContext_def threeLines_def
        leafTree_def exampleOptions_def nodeSize_def markScopes_def finalizeHeader_def
        Let_def upt_rec numeral_nat)

section \<open>Properties of the match engine\<close>

text \<open>
  Claim C5, as the code has it.  \<open>Grep\<close> returns no error: when the pattern handed to
  the compiler (with \<open>(?i)\<close> in front when case is ignored) does not compile, the call
  panics in \<open>regexp.MustCompile\<close>.  The panic comes before the first write, so there is
  no result set and the context is the one before the call in every field; and it is
  not confined to the call: it ends the caller, whose later steps do not run.
\<close>

theorem Grep_panics_on_invalid_pattern:
  assumes "compile lib (if ignoreCase then ''(?i)'' @ pat else pat) = None"
  shows "Grep lib pat ignoreCase tc = (Inl MustCompilePanic, tc)
       \<and> grepAndFormat lib ord blank pat ignoreCase tc = Inl MustCompilePanic"
  using assms by (simp add: Grep_def grepAndFormat_def)

theorem Grep_panics_on_invalid_pattern_witness:
  "compile exampleRegexp (if False then ''(?i)'' @ ''('' else ''('') = None
   \<and> Grep exampleRegexp ''('' False sevenLinesShown = (Inl MustCompilePanic, sevenLinesShown)
   \<and> grepAndFormat exampleRegexp ascendingOrder blankASCII ''('' False sevenLinesShown
       = Inl MustCompilePanic"
proof -
  have h: "compile exampleRegexp (if False then ''(?i)'' @ ''('' else ''('') = None"
    by (simp add: exampleRegexp_def)
  show ?thesis
    using Grep_panics_on_invalid_pattern[OF h, of sevenLinesShown ascendingOrder blankASCII] h
    by simp
qed

text \<open>
  Claim C5 as stated fails: the failure is not an error confined to the call.  On the
  three-line file the caller that greps for \<open>b\<close> gets its rendered text (a marker, line
  1, a marker); the same caller with the pattern \<open>(\<close> is ended by the panic and renders
  nothing.
\<close>

theorem Grep_panic_ends_caller:
  "grepAndFormat exampleRegexp ascendingOrder blankASCII ''b'' False
     (NewTreeContext threeLines leafTree exampleOptions)
     = Inr ([CHR 0xE2, CHR 0x8B, CHR 0xAE] @ ''...'' @ [CHR 0x0A]
            @ [CHR 0xE2, CHR 0x94, CHR 0x82] @ ''b'' @ [CHR 0x0A]
            @ [CHR 0xE2, CHR 0x8B, CHR 0xAE] @ ''...'' @ [CHR 0x0A])
   \<and> grepAndFormat exampleRegexp ascendingOrder blankASCII ''('' False
     (NewTreeContext threeLines leafTree exampleOptions)
     = Inl MustCompilePanic"
  by code_simp

section \<open>Properties of the renderer\<close>

lemma zip_upt_nth: "zip [0 ..< length xs] xs = map (\<lambda>i. (i, xs ! i)) [0 ..< length xs]"
  by (rule nth_equalityI) auto

lemma formatLoop_prefix:
  "k \<le> length (lines tc) \<Longrightarrow>
   fold (\<lambda>i. formatStep tc (i, lines tc ! i)) [0 ..< k] ([], 0 \<notin> showLines tc)
     = (concat (map (itemsOfLine tc) [0 ..< k]),
        if k = 0 then 0 \<notin> showLines tc else int k - 1 \<in> showLines tc)"
proof (induction k)
  case 0
  show ?case by simp
next
  case (Suc k)
  then show ?case
    by (auto simp: formatStep_def itemsOfLine_def hiddenRunStart_def)
qed

lemma formatLoop_items: "formatLoop tc = concat (map (itemsOfLine tc) [0 ..< length (lines tc)])"
  unfolding formatLoop_def zip_upt_nth fold_map comp_def
  using formatLoop_prefix[of "length (lines tc)" tc] by simp

text \<open>
  Claim C9.  With nothing to show \<open>Format\<close> returns the empty string; otherwise it
  walks the source lines, and the items it writes are, line by line: the shown line
  itself, exactly one ellipsis marker at the first line of every maximal run of hidden
  lines, and nothing for the further lines of the run, whatever its length.  The
  witness is the file of seven lines with lines 0, 1, 5 and 6 shown: one marker between
  line 1 and line 5.
\<close>

theorem FormatItems_collapse:
  assumes "showLines tc \<noteq> {}"
  shows "FormatItems tc = concat (map (itemsOfLine tc) [0 ..< length (lines tc)])"
  using assms by (simp add: FormatItems_def formatLoop_items)

theorem FormatItems_collapse_witness:
  "showLines sevenLinesShown \<noteq> {}
   \<and> FormatItems sevenLinesShown
       = concat (map (itemsOfLine sevenLinesShown) [0 ..< length (lines sevenLinesShown)])
   \<and> FormatItems sevenLinesShown =
       [ShownLine 0 [CHR 0xE2, CHR 0x94, CHR 0x82] ''a'',
        ShownLine 1 [CHR 0xE2, CHR 0x94, CHR 0x82] ''b'',
        Ellipsis,
        ShownLine 5 [CHR 0xE2, CHR 0x94, CHR 0x82] ''f'',
        ShownLine 6 [CHR 0xE2, CHR 0x94, CHR 0x82] ''g'']"
proof -
  have ne: "showLines sevenLinesShown \<noteq> {}" by code_simp
  have items: "concat (map (itemsOfLine sevenLinesShown) [0 ..< length (lines sevenLinesShown)]) =
       [ShownLine 0 [CHR 0xE2, CHR 0x94, CHR 0x82] ''a'',
        ShownLine 1 [CHR 0xE2, CHR 0x94, CHR 0x82] ''b'',
        Ellipsis,
        ShownLine 5 [CHR 0xE2, CHR 0x94, CHR 0x82] ''f'',
        ShownLine 6 [CHR 0xE2, CHR 0x94, CHR 0x82] ''g'']"
    by code_simp
  show ?thesis
    using FormatItems_collapse[OF ne] ne items by simp
qed

text \<open>With nothing to show, \<open>Format\<close> writes no item and returns the empty string.\<close>

lemma Format_nothing_shown:
  "showLines tc = {} \<Longrightarrow> FormatItems tc = [] \<and> Format tc = []"
  by (simp add: FormatItems_def Format_def)

section \<open>Properties of gap closing\<close>


lemma pickBlank_mono: "S \<subseteq> pickBlank blank tc i S"
  by (auto simp: pickBlank_def)

lemma fold_pickBlank_mono: "S \<subseteq> fold (pickBlank blank tc) xs S"
proof (induction xs arbitrary: S)
  case Nil show ?case by simp
next
  case (Cons x xs)
  show ?case using pickBlank_mono[of S blank tc x] Cons[of "pickBlank blank tc x S"] by auto
qed

lemma fold_pickBlank_new:
  "x \<in> fold (pickBlank blank tc) xs S \<Longrightarrow> x \<notin> S \<Longrightarrow>
   \<exists>j \<in> set xs. x = int j + 1 \<and> Suc j < length (lines tc) \<and> blank (lines tc ! Suc j)"
proof (induction xs arbitrary: S)
  case Nil then show ?case by simp
next
  case (Cons y ys)
  show ?case
  proof (cases "x \<in> pickBlank blank tc y S")
    case True
    with Cons.prems(2) show ?thesis
      by (auto simp: pickBlank_def split: if_splits)
  next
    case False
    with Cons.IH[of "pickBlank blank tc y S"] Cons.prems(1) show ?thesis by auto
  qed
qed

lemma pickBlank_adds:
  "int i \<in> S \<Longrightarrow> \<not> blank (lines tc ! i) \<Longrightarrow> int i < numLines tc - 2 \<Longrightarrow>
   Suc i < length (lines tc) \<Longrightarrow> blank (lines tc ! Suc i) \<Longrightarrow>
   int i + 1 \<in> pickBlank blank tc i S"
  by (simp add: pickBlank_def)

text \<open>
  Claim C8, as the code has it: the line that follows is picked up only when the shown
  line is itself not blank.  After the gap-closing pass, every shown source line that
  is not blank, is followed by a blank source line and lies below \<open>numLines - 2\<close> has
  that following line shown too.
\<close>

theorem closeSmallGaps_blank_after_nonblank:
  assumes "int i \<in> showLines (closeSmallGaps blank tc)"
    and "Suc i < length (lines tc)"
    and "\<not> blank (lines tc ! i)"
    and "blank (lines tc ! Suc i)"
    and "int i < numLines tc - 2"
  shows "int i + 1 \<in> showLines (closeSmallGaps blank tc)"
proof -
  define S1 where "S1 = fold fillGap (zip (mapKeysSorted (showLines tc)) (tl (mapKeysSorted (showLines tc)))) (showLines tc)"
  have res: "showLines (closeSmallGaps blank tc) = fold (pickBlank blank tc) [0 ..< length (lines tc)] S1"
    by (simp add: closeSmallGaps_def S1_def Let_def)
  have iS1: "int i \<in> S1"
  proof (rule ccontr)
    assume "int i \<notin> S1"
    with assms(1) res fold_pickBlank_new[of "int i" blank tc "[0 ..< length (lines tc)]" S1]
    obtain j where "int i = int j + 1" "blank (lines tc ! Suc j)" by auto
    then have "i = Suc j" by linarith
    with \<open>blank (lines tc ! Suc j)\<close> assms(3) show False by simp
  qed
  have split: "[0 ..< length (lines tc)] = [0 ..< i] @ i # [Suc i ..< length (lines tc)]"
  proof -
    have "i < length (lines tc)" using assms(2) by simp
    then have "[0 ..< length (lines tc)] = [0 ..< i] @ [i ..< length (lines tc)]"
      using upt_add_eq_append[of 0 i "length (lines tc) - i"] by simp
    also have "[i ..< length (lines tc)] = i # [Suc i ..< length (lines tc)]"
      using \<open>i < length (lines tc)\<close> by (rule upt_conv_Cons)
    finally show ?thesis .
  qed
  define S2 where "S2 = fold (pickBlank blank tc) [0 ..< i] S1"
  have "int i \<in> S2" using iS1 fold_pickBlank_mono[of S1 blank tc "[0 ..< i]"] by (auto simp: S2_def)
  then have "int i + 1 \<in> pickBlank blank tc i S2"
    using assms by (intro pickBlank_adds) auto
  then have "int i + 1 \<in> fold (pickBlank blank tc) [Suc i ..< length (lines tc)] (pickBlank blank tc i S2)"
    using fold_pickBlank_mono by blast
  then show ?thesis
    unfolding res by (subst split) (simp add: S2_def)
qed

theorem closeSmallGaps_blank_after_nonblank_witness:
  "int 0 \<in> showLines (closeSmallGaps blankASCII fiveLinesSeeded)
   \<and> Suc 0 < length (lines fiveLinesSeeded)
   \<and> \<not> blankASCII (lines fiveLinesSeeded ! 0)
   \<and> blankASCII (lines fiveLinesSeeded ! Suc 0)
   \<and> int 0 < numLines fiveLinesSeeded - 2
   \<and> int 0 + 1 \<in> showLines (closeSmallGaps blankASCII fiveLinesSeeded)"
proof -
  have h1: "int 0 \<in> showLines (closeSmallGaps blankASCII fiveLinesSeeded)" by code_simp
  have h2: "Suc 0 < length (lines fiveLinesSeeded)" by code_simp
  have h3: "\<not> blankASCII (lines fiveLinesSeeded ! 0)" by code_simp
  have h4: "blankASCII (lines fiveLinesSeeded ! Suc 0)" by code_simp
  have h5: "int 0 < numLines fiveLinesSeeded - 2" by code_simp
  show ?thesis
    using closeSmallGaps_blank_after_nonblank[OF h1 h2 h3 h4 h5] h1 h2 h3 h4 h5 by simp
qed

text \<open>
  Claim C8 as stated fails for a shown line that is blank itself: in the five-line
  file with line 0 shown, gap closing reveals the blank line 1, which is followed by
  the blank line 2 and lies below \<open>numLines - 2 = 4\<close>, but line 2 stays hidden.
\<close>

theorem closeSmallGaps_blank_after_blank_hidden:
  "1 \<in> showLines (closeSmallGaps blankASCII fiveLinesSeeded)
   \<and> blankASCII (lines fiveLinesSeeded ! 2)
   \<and> 1 < numLines fiveLinesSeeded - 2
   \<and> 2 \<notin> showLines (closeSmallGaps blankASCII fiveLinesSeeded)"
  by code_simp

section \<open>The expansion passes only add lines\<close>

lemma grows_refl [simp]: "grows tc tc"
  by (simp add: grows_def sameFields_def)

lemma sameFields_trans: "sameFields a b \<Longrightarrow> sameFields b c \<Longrightarrow> sameFields a c"
  by (simp add: sameFields_def)

lemma grows_trans:
  assumes "grows a b" and "grows b c"
  shows "grows a c"
proof -
  have "showLines a \<subseteq> showLines c"
    using assms by (meson grows_def subset_trans)
  moreover have "doneParentScopes a \<subseteq> doneParentScopes c"
    using assms by (meson grows_def subset_trans)
  moreover have "sameFields a c"
    using assms sameFields_trans by (meson grows_def)
  ultimately show ?thesis by (simp add: grows_def)
qed

lemma grows_fields:
  assumes "grows tc tc'"
  shows "scopes tc' = scopes tc" "header tc' = header tc" "nodes tc' = nodes tc"
    "lines tc' = lines tc" "numLines tc' = numLines tc"
    "linesOfInterest tc' = linesOfInterest tc" "lastLine tc' = lastLine tc"
    "parentContext tc' = parentContext tc" "childContext tc' = childContext tc"
    "margin tc' = margin tc" "loiPad tc' = loiPad tc"
    "showTopOfFileParentScope tc' = showTopOfFileParentScope tc"
    "outputLines tc' = outputLines tc"
  using assms unfolding grows_def sameFields_def by simp_all

lemma grows_show: "grows tc tc' \<Longrightarrow> showLines tc \<subseteq> showLines tc'"
  by (simp add: grows_def)

lemma grows_done: "grows tc tc' \<Longrightarrow> doneParentScopes tc \<subseteq> doneParentScopes tc'"
  by (simp add: grows_def)

lemma grows_showLines_update: "showLines tc \<subseteq> S \<Longrightarrow> grows tc (tc\<lparr>showLines := S\<rparr>)"
  by (simp add: grows_def sameFields_def)

lemma foldE_rel:
  assumes step: "\<And>x s s'. x \<in> set xs \<Longrightarrow> f x s = Inr s' \<Longrightarrow> R s s'"
    and refl: "\<And>s. R s s"
    and trans: "\<And>a b c. R a b \<Longrightarrow> R b c \<Longrightarrow> R a c"
  shows "foldE f xs s = Inr s' \<Longrightarrow> R s s'"
  using step
proof (induction xs arbitrary: s)
  case Nil
  then show ?case using refl by simp
next
  case (Cons x xs)
  from Cons.prems(1) obtain s1 where s1: "f x s = Inr s1" and rest: "foldE f xs s1 = Inr s'"
    by (cases "f x s") auto
  have "R s s1" using Cons.prems(2)[of x s s1] s1 by simp
  moreover have "R s1 s'" using Cons.IH[OF rest] Cons.prems(2) by auto
  ultimately show ?case by (rule trans)
qed

lemma revealHeader_grows:
  assumes rec: "\<And>j s s'. recurse j s = Inr s' \<Longrightarrow> grows s s'"
    and res: "revealHeader recurse l tc = Inr tc'"
  shows "grows tc tc'"
proof -
  have inrange: "\<not> (l < 0 \<or> l \<ge> int (length (header tc)))"
    using res by (auto simp: revealHeader_def)
  show ?thesis
  proof (cases "length (header tc ! nat l) \<ge> 2")
    case False
    with res inrange have "tc' = tc" by (simp add: revealHeader_def)
    then show ?thesis by simp
  next
    case long: True
    define hs where "hs = header tc ! nat l"
    define tc1 where "tc1 = (if hs ! 0 > 0 \<or> showTopOfFileParentScope tc
        then tc\<lparr>showLines := showLines tc \<union> {hs ! 0 ..< min (hs ! 1) (numLines tc)}\<rparr>
        else tc)"
    have g1: "grows tc tc1" by (simp add: tc1_def grows_showLines_update)
    have unfold: "revealHeader recurse l tc =
        (if lastLine tc1 then recurse (getLastLineOfScope tc1 l) tc1 else Inr tc1)"
      using inrange long unfolding revealHeader_def Let_def tc1_def hs_def by simp
    show ?thesis
    proof (cases "lastLine tc1")
      case True
      with res unfold have "recurse (getLastLineOfScope tc1 l) tc1 = Inr tc'" by simp
      then have "grows tc1 tc'" by (rule rec)
      with g1 show ?thesis by (rule grows_trans)
    next
      case False
      with res unfold have "tc' = tc1" by simp
      with g1 show ?thesis by simp
    qed
  qed
qed

lemma rangeKeys_grows: "rangeKeys ord m tc = (keys, tc') \<Longrightarrow> grows tc tc'"
  by (auto simp: rangeKeys_def grows_def sameFields_def)

lemma addParentScopes_grows: "addParentScopes ord n i tc = Inr tc' \<Longrightarrow> grows tc tc'"
proof (induction n arbitrary: i tc tc')
  case 0
  then show ?case by simp
next
  case (Suc n)
  show ?case
  proof (cases "i < 0 \<or> i \<ge> int (length (scopes tc)) \<or> i \<in> doneParentScopes tc")
    case True
    with Suc.prems have "tc' = tc" by (auto split: if_splits)
    then show ?thesis by simp
  next
    case False
    define tc1 where "tc1 = tc\<lparr>doneParentScopes := insert i (doneParentScopes tc)\<rparr>"
    define tc2 where "tc2 = tc1\<lparr>rangeCount := Suc (rangeCount tc1)\<rparr>"
    have g: "grows tc tc2" by (auto simp: tc1_def tc2_def grows_def sameFields_def)
    from False Suc.prems
    have fold: "foldE (revealHeader (addParentScopes ord n))
                  (ord (rangeCount tc1) (scopes tc1 ! nat i)) tc2 = Inr tc'"
      by (simp add: Let_def rangeKeys_def tc1_def tc2_def)
    have step: "revealHeader (addParentScopes ord n) x s = Inr s' \<Longrightarrow> grows s s'" for x s s'
      by (rule revealHeader_grows[where recurse = "addParentScopes ord n"]) (rule Suc.IH)
    have "grows tc2 tc'"
    proof (rule foldE_rel[where R = grows, OF _ _ _ fold])
      show "\<And>x s s'. revealHeader (addParentScopes ord n) x s = Inr s' \<Longrightarrow> grows s s'"
        by (rule step)
      show "\<And>s. grows s s" by simp
      show "\<And>a b c. grows a b \<Longrightarrow> grows b c \<Longrightarrow> grows a c" by (rule grows_trans)
    qed
    with g show ?thesis by (rule grows_trans)
  qed
qed

lemma childLoop_grows: "childLoop ord fuel limit cs tc = Inr tc' \<Longrightarrow> grows tc tc'"
proof (induction cs arbitrary: tc)
  case Nil
  then show ?case by simp
next
  case (Cons c cs)
  show ?case
  proof (cases "int (card (showLines tc)) > limit")
    case True
    with Cons.prems show ?thesis by simp
  next
    case False
    with Cons.prems obtain tc1 where a: "addParentScopes ord fuel (int (startRow c)) tc = Inr tc1"
      and b: "childLoop ord fuel limit cs tc1 = Inr tc'"
      by (cases "addParentScopes ord fuel (int (startRow c)) tc") auto
    from addParentScopes_grows[OF a] Cons.IH[OF b] show ?thesis by (rule grows_trans)
  qed
qed

lemma addChildContext_cases:
  assumes res: "addChildContext ord fuel i tc = Inr tc'"
  obtains (same) "tc' = tc"
  | (small) "0 \<le> i" "i < int (length (nodes tc))" "nodes tc ! nat i \<noteq> []"
      "0 \<le> getLastLineOfScope tc i - i" "getLastLineOfScope tc i - i < 5"
      "tc' = tc\<lparr>showLines := showLines tc \<union>
                  {i ..< min (getLastLineOfScope tc i + 1) (numLines tc)}\<rparr>"
  | (large) "0 \<le> i" "i < int (length (nodes tc))" "nodes tc ! nat i \<noteq> []"
      "5 \<le> getLastLineOfScope tc i - i"
      "childLoop ord fuel
         (int (card (showLines tc)) + computedMax (getLastLineOfScope tc i - i))
         (sortNodesBySize (concat (map findAllChildren (nodes tc ! nat i)))) tc = Inr tc'"
proof (cases "i < 0 \<or> i \<ge> int (length (nodes tc))")
  case True
  with res have "tc' = tc" by (simp add: addChildContext_def)
  then show ?thesis by (rule same)
next
  case inr: False
  show ?thesis
  proof (cases "length (nodes tc ! nat i) = 0")
    case True
    with inr res have "tc' = tc" by (simp add: addChildContext_def)
    then show ?thesis by (rule same)
  next
    case ne: False
    show ?thesis
    proof (cases "getLastLineOfScope tc i - i < 0")
      case True
      with inr ne res have "tc' = tc" by (simp add: addChildContext_def Let_def)
      then show ?thesis by (rule same)
    next
      case nonneg: False
      show ?thesis
      proof (cases "getLastLineOfScope tc i - i < 5")
        case True
        with inr ne nonneg res
        have "tc' = tc\<lparr>showLines := showLines tc \<union>
                  {i ..< min (getLastLineOfScope tc i + 1) (numLines tc)}\<rparr>"
          by (simp add: addChildContext_def Let_def)
        with inr ne nonneg True show ?thesis by (intro small) auto
      next
        case False
        with inr ne nonneg res
        have "childLoop ord fuel
                (int (card (showLines tc)) + computedMax (getLastLineOfScope tc i - i))
                (sortNodesBySize (concat (map findAllChildren (nodes tc ! nat i)))) tc = Inr tc'"
          by (simp add: addChildContext_def Let_def)
        with inr ne False show ?thesis by (intro large) auto
      qed
    qed
  qed
qed

lemma addChildContext_grows:
  assumes "addChildContext ord fuel i tc = Inr tc'"
  shows "grows tc tc'"
  using assms
proof (cases rule: addChildContext_cases)
  case same
  then show ?thesis by simp
next
  case small
  then show ?thesis by (simp add: grows_showLines_update)
next
  case large
  then show ?thesis by (auto intro: childLoop_grows)
qed

lemma bindE_Inr: "bindE m f = Inr y \<longleftrightarrow> (\<exists>x. m = Inr x \<and> f x = Inr y)"
  by (cases m) auto

lemma fold_fillGap_mono: "S \<subseteq> fold fillGap ps S"
proof (induction ps arbitrary: S)
  case Nil
  show ?case by simp
next
  case (Cons p ps)
  have "S \<subseteq> fillGap p S" by (cases p) (auto simp: fillGap_def)
  also have "\<dots> \<subseteq> fold fillGap ps (fillGap p S)" by (rule Cons.IH)
  finally show ?case by simp
qed

lemma closeSmallGaps_show: "showLines tc \<subseteq> showLines (closeSmallGaps blank tc)"
proof -
  have "showLines tc \<subseteq> fold fillGap (zip (mapKeysSorted (showLines tc))
                            (tl (mapKeysSorted (showLines tc)))) (showLines tc)"
    by (rule fold_fillGap_mono)
  also have "\<dots> \<subseteq> showLines (closeSmallGaps blank tc)"
    unfolding closeSmallGaps_def Let_def by (simp add: fold_pickBlank_mono)
  finally show ?thesis .
qed

lemma closeSmallGaps_grows: "grows tc (closeSmallGaps blank tc)"
  using closeSmallGaps_show[of tc blank]
  by (simp add: grows_def sameFields_def closeSmallGaps_def Let_def)

lemma seedShowLines_grows: "grows tc (seedShowLines tc)"
  by (simp add: seedShowLines_def grows_showLines_update)

lemma padShowLines_grows: "grows tc (padShowLines tc)"
  by (simp add: padShowLines_def grows_showLines_update)

lemma addMargin_grows: "grows tc (addMargin tc)"
  by (simp add: addMargin_def grows_showLines_update)

lemma addBottomLine_grows:
  assumes "addBottomLine ord fuel tc = Inr tc'"
  shows "grows tc tc'"
proof (cases "lastLine tc")
  case True
  define tc1 where "tc1 = tc\<lparr>showLines := insert (numLines tc - 2) (showLines tc)\<rparr>"
  have "grows tc tc1" by (auto simp: tc1_def intro: grows_showLines_update)
  moreover have "addParentScopes ord fuel (numLines tc - 2) tc1 = Inr tc'"
    using assms True by (simp add: addBottomLine_def Let_def tc1_def)
  then have "grows tc1 tc'" by (rule addParentScopes_grows)
  ultimately show ?thesis by (rule grows_trans)
next
  case False
  with assms show ?thesis by (simp add: addBottomLine_def)
qed

lemma foldE_grows:
  assumes "\<And>x s s'. f x s = Inr s' \<Longrightarrow> grows s s'"
    and "foldE f xs s = Inr s'"
  shows "grows s s'"
proof (rule foldE_rel[where R = grows, OF _ _ _ assms(2)])
  show "\<And>x s s'. f x s = Inr s' \<Longrightarrow> grows s s'" by (rule assms(1))
  show "\<And>s. grows s s" by simp
  show "\<And>a b c. grows a b \<Longrightarrow> grows b c \<Longrightarrow> grows a c" by (rule grows_trans)
qed

lemma addParentContexts_grows:
  assumes "addParentContexts ord fuel tc = Inr tc'"
  shows "grows tc tc'"
proof (cases "parentContext tc")
  case True
  define tc1 where "tc1 = tc\<lparr>rangeCount := Suc (rangeCount tc)\<rparr>"
  have "grows tc tc1" by (simp add: tc1_def grows_def sameFields_def)
  moreover have "foldE (addParentScopes ord fuel) (ord (rangeCount tc) (linesOfInterest tc)) tc1 = Inr tc'"
    using assms True by (simp add: addParentContexts_def rangeKeys_def tc1_def)
  then have "grows tc1 tc'" by (rule foldE_grows[rotated]) (rule addParentScopes_grows)
  ultimately show ?thesis by (rule grows_trans)
next
  case False
  with assms show ?thesis by (simp add: addParentContexts_def)
qed

lemma addChildContexts_grows:
  assumes "addChildContexts ord fuel tc = Inr tc'"
  shows "grows tc tc'"
proof (cases "childContext tc")
  case True
  define tc1 where "tc1 = tc\<lparr>rangeCount := Suc (rangeCount tc)\<rparr>"
  have "grows tc tc1" by (simp add: tc1_def grows_def sameFields_def)
  moreover have "foldE (addChildContext ord fuel) (ord (rangeCount tc) (linesOfInterest tc)) tc1 = Inr tc'"
    using assms True by (simp add: addChildContexts_def rangeKeys_def tc1_def)
  then have "grows tc1 tc'" by (rule foldE_grows[rotated]) (rule addChildContext_grows)
  ultimately show ?thesis by (rule grows_trans)
next
  case False
  with assms show ?thesis by (simp add: addChildContexts_def)
qed

lemma AddContext_steps:
  assumes "AddContext ord blank tc = Inr tc'" and "linesOfInterest tc \<noteq> {}"
  obtains tc3 tc4 tc5 where
    "addBottomLine ord (Suc (length (scopes tc))) (padShowLines (seedShowLines tc)) = Inr tc3"
    "addParentContexts ord (Suc (length (scopes tc))) tc3 = Inr tc4"
    "addChildContexts ord (Suc (length (scopes tc))) tc4 = Inr tc5"
    "tc' = closeSmallGaps blank (addMargin tc5)"
  using assms unfolding AddContext_def Let_def
  by (auto simp: bindE_Inr)

lemma AddContext_grows:
  assumes "AddContext ord blank tc = Inr tc'"
  shows "grows tc tc'"
proof (cases "linesOfInterest tc = {}")
  case True
  with assms show ?thesis by (simp add: AddContext_def)
next
  case False
  from assms False obtain tc3 tc4 tc5 where
    a: "addBottomLine ord (Suc (length (scopes tc))) (padShowLines (seedShowLines tc)) = Inr tc3"
    and b: "addParentContexts ord (Suc (length (scopes tc))) tc3 = Inr tc4"
    and c: "addChildContexts ord (Suc (length (scopes tc))) tc4 = Inr tc5"
    and d: "tc' = closeSmallGaps blank (addMargin tc5)"
    by (rule AddContext_steps)
  have "grows tc (padShowLines (seedShowLines tc))"
    using seedShowLines_grows padShowLines_grows by (rule grows_trans)
  then have "grows tc tc3" using addBottomLine_grows[OF a] by (rule grows_trans)
  then have "grows tc tc4" using addParentContexts_grows[OF b] by (rule grows_trans)
  then have "grows tc tc5" using addChildContexts_grows[OF c] by (rule grows_trans)
  then have "grows tc (addMargin tc5)" using addMargin_grows by (rule grows_trans)
  then show ?thesis unfolding d using closeSmallGaps_grows by (rule grows_trans)
qed

section \<open>The expansion does not panic and its recursion ends\<close>

lemma grows_wfIndex: "grows tc tc' \<Longrightarrow> wfIndex tc \<Longrightarrow> wfIndex tc'"
  by (simp add: wfIndex_def grows_fields)

lemma grows_pending: "grows tc tc' \<Longrightarrow> pending tc' \<le> pending tc"
  unfolding pending_def
  by (rule card_mono) (auto simp: grows_fields dest: grows_done)

lemma pending_le_length: "pending tc \<le> length (scopes tc)"
proof -
  have "pending tc \<le> card {0 ..< int (length (scopes tc))}"
    unfolding pending_def by (rule card_mono) auto
  then show ?thesis by simp
qed

lemma pending_mark:
  assumes "0 \<le> i" "i < int (length (scopes tc))" "i \<notin> doneParentScopes tc"
  shows "pending (tc\<lparr>doneParentScopes := insert i (doneParentScopes tc),
                     rangeCount := k\<rparr>) < pending tc"
proof -
  let ?U = "{0 ..< int (length (scopes tc))} - doneParentScopes tc"
  have fin: "finite ?U" by simp
  have mem: "i \<in> ?U" using assms by simp
  have "{0 ..< int (length (scopes tc))} - insert i (doneParentScopes tc) = ?U - {i}" by auto
  then have "pending (tc\<lparr>doneParentScopes := insert i (doneParentScopes tc), rangeCount := k\<rparr>)
      = card (?U - {i})" by (simp add: pending_def)
  also have "\<dots> < card ?U" using fin mem by (rule card_Diff1_less)
  finally show ?thesis by (simp add: pending_def)
qed

lemma foldE_total:
  assumes "I s"
    and "\<And>x s. x \<in> set xs \<Longrightarrow> I s \<Longrightarrow> \<exists>s'. f x s = Inr s' \<and> I s'"
  shows "\<exists>s'. foldE f xs s = Inr s' \<and> I s'"
  using assms
proof (induction xs arbitrary: s)
  case Nil
  then show ?case by simp
next
  case (Cons x xs)
  from Cons.prems(2)[of x s] Cons.prems(1) obtain s1 where s1: "f x s = Inr s1" "I s1" by auto
  have "\<exists>s'. foldE f xs s1 = Inr s' \<and> I s'"
    by (rule Cons.IH[OF s1(2)]) (use Cons.prems(2) in auto)
  with s1 show ?case by simp
qed

lemma revealHeader_total:
  assumes rng: "0 \<le> l" "l < int (length (header tc))"
    and rec: "\<And>j tc1. grows tc tc1 \<Longrightarrow> \<exists>s'. recurse j tc1 = Inr s'"
  shows "\<exists>tc'. revealHeader recurse l tc = Inr tc'"
proof (cases "length (header tc ! nat l) \<ge> 2")
  case False
  with rng show ?thesis by (simp add: revealHeader_def)
next
  case long: True
  define hs where "hs = header tc ! nat l"
  define tc1 where "tc1 = (if hs ! 0 > 0 \<or> showTopOfFileParentScope tc
      then tc\<lparr>showLines := showLines tc \<union> {hs ! 0 ..< min (hs ! 1) (numLines tc)}\<rparr>
      else tc)"
  have g1: "grows tc tc1" by (simp add: tc1_def grows_showLines_update)
  have unfold: "revealHeader recurse l tc =
      (if lastLine tc1 then recurse (getLastLineOfScope tc1 l) tc1 else Inr tc1)"
    using rng long unfolding revealHeader_def Let_def tc1_def hs_def by simp
  show ?thesis using rec[OF g1] by (simp add: unfold)
qed

lemma addParentScopes_total:
  assumes ord: "validOrder ord"
  shows "wfIndex tc \<Longrightarrow> pending tc < n \<Longrightarrow> \<exists>tc'. addParentScopes ord n i tc = Inr tc'"
proof (induction n arbitrary: i tc)
  case 0
  then show ?case by simp
next
  case (Suc n)
  show ?case
  proof (cases "i < 0 \<or> i \<ge> int (length (scopes tc)) \<or> i \<in> doneParentScopes tc")
    case True
    then show ?thesis by auto
  next
    case False
    define tc2 where "tc2 = tc\<lparr>doneParentScopes := insert i (doneParentScopes tc),
                                rangeCount := Suc (rangeCount tc)\<rparr>"
    define keys where "keys = ord (rangeCount tc) (scopes tc ! nat i)"
    have unfold: "addParentScopes ord (Suc n) i tc
        = foldE (revealHeader (addParentScopes ord n)) keys tc2"
      using False by (simp add: Let_def rangeKeys_def tc2_def keys_def)
    have g2: "grows tc tc2" by (auto simp: tc2_def grows_def sameFields_def)
    have p2: "pending tc2 < n"
      using pending_mark[of i tc "Suc (rangeCount tc)"] False Suc.prems(2)
      by (simp add: tc2_def)
    have inb: "nat i < length (scopes tc)" using False by auto
    have fin: "finite (scopes tc ! nat i)" using Suc.prems(1) inb by (simp add: wfIndex_def)
    have keys: "set keys = scopes tc ! nat i"
      using ord fin by (simp add: keys_def validOrder_def)
    have "\<exists>s'. foldE (revealHeader (addParentScopes ord n)) keys tc2 = Inr s' \<and> grows tc2 s'"
    proof (rule foldE_total[where I = "grows tc2"])
      show "grows tc2 tc2" by simp
    next
      fix x s
      assume x: "x \<in> set keys" and s: "grows tc2 s"
      have gs: "grows tc s" using g2 s by (rule grows_trans)
      have xr: "0 \<le> x" "x < int (length (header s))"
        using x keys Suc.prems(1) inb by (auto simp: wfIndex_def grows_fields[OF gs])
      have "\<exists>s'. revealHeader (addParentScopes ord n) x s = Inr s'"
      proof (rule revealHeader_total[OF xr])
        fix j tc1
        assume g: "grows s tc1"
        have gt: "grows tc tc1" using gs g by (rule grows_trans)
        have "pending tc1 \<le> pending tc2" using grows_pending grows_trans[OF s g] by blast
        with p2 have "pending tc1 < n" by simp
        moreover have "wfIndex tc1" using gt Suc.prems(1) by (rule grows_wfIndex)
        ultimately show "\<exists>s'. addParentScopes ord n j tc1 = Inr s'" by (rule Suc.IH[rotated])
      qed
      then obtain s' where s': "revealHeader (addParentScopes ord n) x s = Inr s'" ..
      have "grows s s'"
        by (rule revealHeader_grows[OF _ s']) (rule addParentScopes_grows)
      with s have "grows tc2 s'" by (rule grows_trans)
      with s' show "\<exists>s'. revealHeader (addParentScopes ord n) x s = Inr s' \<and> grows tc2 s'"
        by blast
    qed
    then show ?thesis unfolding unfold by blast
  qed
qed

lemma addParentScopes_total_fuel:
  assumes "validOrder ord" "wfIndex tc" "length (scopes tc) < fuel"
  shows "\<exists>tc'. addParentScopes ord fuel i tc = Inr tc'"
proof -
  have "pending tc < fuel" using pending_le_length[of tc] assms(3) by simp
  with assms(1,2) show ?thesis by (rule addParentScopes_total)
qed

lemma grows_fueled: "grows tc tc' \<Longrightarrow> fueled fuel tc \<Longrightarrow> fueled fuel tc'"
  by (simp add: fueled_def grows_wfIndex grows_fields)

lemma addParentScopes_fueled:
  assumes "validOrder ord" "fueled fuel tc"
  shows "\<exists>tc'. addParentScopes ord fuel i tc = Inr tc' \<and> fueled fuel tc'"
proof -
  from assms obtain tc' where r: "addParentScopes ord fuel i tc = Inr tc'"
    using addParentScopes_total_fuel[of ord tc fuel i] by (auto simp: fueled_def)
  from addParentScopes_grows[OF r] assms(2) have "fueled fuel tc'" by (rule grows_fueled)
  with r show ?thesis by blast
qed

lemma childLoop_fueled:
  assumes "validOrder ord"
  shows "fueled fuel tc \<Longrightarrow> \<exists>tc'. childLoop ord fuel limit cs tc = Inr tc' \<and> fueled fuel tc'"
proof (induction cs arbitrary: tc)
  case Nil
  then show ?case by simp
next
  case (Cons c cs)
  show ?case
  proof (cases "int (card (showLines tc)) > limit")
    case True
    with Cons.prems show ?thesis by simp
  next
    case False
    from addParentScopes_fueled[OF assms Cons.prems, of "int (startRow c)"]
    obtain tc1 where a: "addParentScopes ord fuel (int (startRow c)) tc = Inr tc1"
      and f1: "fueled fuel tc1" by blast
    from Cons.IH[OF f1] a False show ?thesis by simp
  qed
qed

lemma addChildContext_fueled:
  assumes "validOrder ord" "fueled fuel tc"
  shows "\<exists>tc'. addChildContext ord fuel i tc = Inr tc' \<and> fueled fuel tc'"
proof -
  have loop: "\<exists>tc'. childLoop ord fuel limit cs tc = Inr tc'" for limit cs
    using childLoop_fueled[OF assms, of limit cs] by blast
  have "\<exists>tc'. addChildContext ord fuel i tc = Inr tc'"
    unfolding addChildContext_def Let_def
    by (simp add: loop)
  then obtain tc' where r: "addChildContext ord fuel i tc = Inr tc'" ..
  from addChildContext_grows[OF r] assms(2) have "fueled fuel tc'" by (rule grows_fueled)
  with r show ?thesis by blast
qed

lemma addBottomLine_fueled:
  assumes "validOrder ord" "fueled fuel tc"
  shows "\<exists>tc'. addBottomLine ord fuel tc = Inr tc' \<and> fueled fuel tc'"
proof (cases "lastLine tc")
  case True
  have "fueled fuel (tc\<lparr>showLines := insert (numLines tc - 2) (showLines tc)\<rparr>)"
    using assms(2) by (simp add: fueled_def wfIndex_def)
  from addParentScopes_fueled[OF assms(1) this] True show ?thesis
    by (simp add: addBottomLine_def Let_def)
next
  case False
  with assms show ?thesis by (simp add: addBottomLine_def)
qed

lemma addParentContexts_fueled:
  assumes "validOrder ord" "fueled fuel tc"
  shows "\<exists>tc'. addParentContexts ord fuel tc = Inr tc' \<and> fueled fuel tc'"
proof (cases "parentContext tc")
  case True
  have f1: "fueled fuel (tc\<lparr>rangeCount := Suc (rangeCount tc)\<rparr>)"
    using assms(2) by (simp add: fueled_def wfIndex_def)
  have "\<exists>s'. foldE (addParentScopes ord fuel) (ord (rangeCount tc) (linesOfInterest tc))
               (tc\<lparr>rangeCount := Suc (rangeCount tc)\<rparr>) = Inr s' \<and> fueled fuel s'"
    by (rule foldE_total[where I = "fueled fuel", OF f1]) (rule addParentScopes_fueled[OF assms(1)])
  with True show ?thesis by (simp add: addParentContexts_def rangeKeys_def)
next
  case False
  with assms show ?thesis by (simp add: addParentContexts_def)
qed

lemma addChildContexts_fueled:
  assumes "validOrder ord" "fueled fuel tc"
  shows "\<exists>tc'. addChildContexts ord fuel tc = Inr tc' \<and> fueled fuel tc'"
proof (cases "childContext tc")
  case True
  have f1: "fueled fuel (tc\<lparr>rangeCount := Suc (rangeCount tc)\<rparr>)"
    using assms(2) by (simp add: fueled_def wfIndex_def)
  have "\<exists>s'. foldE (addChildContext ord fuel) (ord (rangeCount tc) (linesOfInterest tc))
               (tc\<lparr>rangeCount := Suc (rangeCount tc)\<rparr>) = Inr s' \<and> fueled fuel s'"
    by (rule foldE_total[where I = "fueled fuel", OF f1]) (rule addChildContext_fueled[OF assms(1)])
  with True show ?thesis by (simp add: addChildContexts_def rangeKeys_def)
next
  case False
  with assms show ?thesis by (simp add: addChildContexts_def)
qed

lemma AddContext_total:
  assumes "validOrder ord" "wfIndex tc"
  shows "\<exists>tc'. AddContext ord blank tc = Inr tc'"
proof (cases "linesOfInterest tc = {}")
  case True
  then show ?thesis by (simp add: AddContext_def)
next
  case False
  let ?fuel = "Suc (length (scopes tc))"
  have "grows tc (padShowLines (seedShowLines tc))"
    using seedShowLines_grows padShowLines_grows by (rule grows_trans)
  moreover have "fueled ?fuel tc" using assms(2) by (simp add: fueled_def)
  ultimately have f2: "fueled ?fuel (padShowLines (seedShowLines tc))" by (rule grows_fueled)
  from addBottomLine_fueled[OF assms(1) f2] obtain tc3 where
    a: "addBottomLine ord ?fuel (padShowLines (seedShowLines tc)) = Inr tc3" and f3: "fueled ?fuel tc3"
    by blast
  from addParentContexts_fueled[OF assms(1) f3] obtain tc4 where
    b: "addParentContexts ord ?fuel tc3 = Inr tc4" and f4: "fueled ?fuel tc4" by blast
  from addChildContexts_fueled[OF assms(1) f4] obtain tc5 where
    c: "addChildContexts ord ?fuel tc4 = Inr tc5" by blast
  from False a b c show ?thesis by (simp add: AddContext_def Let_def)
qed

section \<open>Sequences of calls: no panic, and the lines of interest are shown\<close>

lemma fold_insert_scopesOK:
  assumes "0 \<le> v" "v < int n"
  shows "scopesOK n sc \<Longrightarrow> scopesOK n (fold (\<lambda>i acc. acc[i := insert v (acc ! i)]) js sc)"
proof (induction js arbitrary: sc)
  case Nil
  then show ?case by simp
next
  case (Cons j js)
  have "scopesOK n (sc[j := insert v (sc ! j)])"
    unfolding scopesOK_def
  proof (intro allI impI)
    fix i
    assume "i < length (sc[j := insert v (sc ! j)])"
    then have i: "i < length sc" by simp
    show "finite (sc[j := insert v (sc ! j)] ! i)
        \<and> (\<forall>x \<in> sc[j := insert v (sc ! j)] ! i. 0 \<le> x \<and> x < int n)"
    proof (cases "i = j")
      case True
      with i Cons.prems assms show ?thesis by (simp add: scopesOK_def)
    next
      case False
      with i Cons.prems show ?thesis by (simp add: scopesOK_def)
    qed
  qed
  then show ?case using Cons.IH by simp
qed

lemma fold_update_length:
  "length (fold (\<lambda>i acc. acc[i := g i acc]) js xs) = length xs"
  by (induction js arbitrary: xs) auto

lemma markScopes_scopesOK: "s < n \<Longrightarrow> scopesOK n sc \<Longrightarrow> scopesOK n (markScopes s e sc)"
  unfolding markScopes_def by (rule fold_insert_scopesOK) auto

lemma walkTree_nodes_length: "length (nodes (walkTree t tc)) = length (nodes tc)"
  by (simp add: walkTree_header_nodes)

lemma walkTree_scopesOK:
  "scopesOK (length (nodes tc)) (scopes tc) \<Longrightarrow>
   scopesOK (length (nodes tc)) (scopes (walkTree t tc))"
proof (induction t arbitrary: tc)
  case (Node s e cs)
  have kids: "scopesOK (length (nodes tc')) (scopes tc') \<Longrightarrow>
      scopesOK (length (nodes tc')) (scopes (fold walkTree ks tc'))"
    if "set ks \<subseteq> set cs" for ks tc'
    using that
  proof (induction ks arbitrary: tc')
    case Nil
    then show ?case by simp
  next
    case (Cons k ks)
    then have k: "k \<in> set cs" and ks: "set ks \<subseteq> set cs" by auto
    have "scopesOK (length (nodes tc')) (scopes (walkTree k tc'))"
      using Node.IH[OF k] Cons.prems(1) by simp
    then have "scopesOK (length (nodes (walkTree k tc'))) (scopes (walkTree k tc'))"
      by (simp add: walkTree_nodes_length)
    from Cons.IH[OF this ks] show ?case by (simp add: walkTree_nodes_length)
  qed
  show ?case
  proof (cases "s \<ge> length (nodes tc)")
    case True
    with Node.prems show ?thesis by simp
  next
    case False
    define tc3 where "tc3 = (if int e - int s > 0 \<and> s < length (header tc)
        then tc\<lparr>nodes := (nodes tc)[s := nodes tc ! s @ [Node s e cs]],
                header := (header tc)[s := [int e - int s, int s, int e]],
                scopes := markScopes s e (scopes tc)\<rparr>
        else tc\<lparr>nodes := (nodes tc)[s := nodes tc ! s @ [Node s e cs]],
                scopes := markScopes s e (scopes tc)\<rparr>)"
    have w: "walkTree (Node s e cs) tc = fold walkTree cs tc3"
      using False by (simp add: Let_def tc3_def)
    have len: "length (nodes tc3) = length (nodes tc)" by (simp add: tc3_def)
    have "scopesOK (length (nodes tc)) (scopes tc3)"
      using False Node.prems by (simp add: tc3_def markScopes_scopesOK)
    with kids[OF subset_refl, of tc3] len show ?thesis unfolding w by simp
  qed
qed

lemma walkTree_header_length: "length (header (walkTree t tc)) = length (header tc)"
  by (simp add: walkTree_header_nodes)

lemma walkTree_scopes_length: "length (scopes (walkTree t tc)) = length (scopes tc)"
proof (induction t arbitrary: tc)
  case (Node s e cs)
  have kids: "length (scopes (fold walkTree ks tc')) = length (scopes tc')"
    if "set ks \<subseteq> set cs" for ks tc'
    using that
  proof (induction ks arbitrary: tc')
    case Nil
    show ?case by simp
  next
    case (Cons k ks)
    then show ?case using Node.IH[of k] by simp
  qed
  show ?case
    using kids[OF subset_refl]
    by (simp add: Let_def markScopes_def fold_update_length)
qed



lemma NewTreeContext_wfIndex: "wfIndex (NewTreeContext source rootNode options)"
proof -
  define tc0 where "tc0 = initContext source options"
  define tc1 where "tc1 = walkTree rootNode tc0"
  have l0: "length (header tc0) = length (nodes tc0)"
    by (simp add: tc0_def initContext_def Let_def)
  have "scopesOK (length (nodes tc0)) (scopes tc0)"
    by (simp add: tc0_def initContext_def Let_def scopesOK_def nth_Cons')
  then have ok: "scopesOK (length (nodes tc0)) (scopes tc1)"
    unfolding tc1_def by (rule walkTree_scopesOK)
  have l1: "length (header tc1) = length (nodes tc0)"
    using l0 by (simp add: tc1_def walkTree_header_length)
  have "scopes (postWalkProcessing tc1) = scopes tc1"
    and "length (header (postWalkProcessing tc1)) = length (header tc1)"
    by (simp_all add: postWalkProcessing_def fold_update_length)
  with ok l1 have "wfIndex (postWalkProcessing tc1)"
    by (simp add: wfIndex_def scopesOK_def)
  then show ?thesis by (simp add: NewTreeContext_def tc1_def tc0_def)
qed

lemma AddLinesOfInterest_wfIndex: "wfIndex tc \<Longrightarrow> wfIndex (AddLinesOfInterest lineNums tc)"
  by (simp add: wfIndex_def AddLinesOfInterest_def)

lemma runCalls_total:
  assumes "validOrder ord"
  shows "wfIndex tc \<Longrightarrow>
         \<exists>tc'. runCalls ord blank calls tc = Inr tc' \<and> wfIndex tc' \<and> lines tc' = lines tc"
proof (induction calls arbitrary: tc)
  case Nil
  then show ?case by simp
next
  case (Cons c calls)
  show ?case
  proof (cases c)
    case (CallAddLinesOfInterest lineNums)
    have "lines (AddLinesOfInterest lineNums tc) = lines tc"
      by (simp add: AddLinesOfInterest_def)
    with Cons.IH[OF AddLinesOfInterest_wfIndex[OF Cons.prems], of lineNums]
      CallAddLinesOfInterest show ?thesis by simp
  next
    case CallAddContext
    from AddContext_total[OF assms Cons.prems] obtain tc1
      where a: "AddContext ord blank tc = Inr tc1" by blast
    have g: "grows tc tc1" using a by (rule AddContext_grows)
    have "wfIndex tc1" using g Cons.prems by (rule grows_wfIndex)
    from Cons.IH[OF this] a CallAddContext grows_fields(4)[OF g] show ?thesis by simp
  qed
qed

lemma validOrder_ascendingOrder: "validOrder ascendingOrder"
  by (simp add: validOrder_def ascendingOrder_def)

lemma validOrder_descendingOrder: "validOrder descendingOrder"
  by (simp add: validOrder_def descendingOrder_def)




lemma runCalls_append:
  "runCalls ord blank (xs @ ys) tc = bindE (runCalls ord blank xs tc) (runCalls ord blank ys)"
proof (induction xs arbitrary: tc)
  case Nil
  show ?case by simp
next
  case (Cons c xs)
  show ?case
  proof (cases c)
    case (CallAddLinesOfInterest lineNums)
    with Cons.IH show ?thesis by simp
  next
    case CallAddContext
    with Cons.IH show ?thesis by (cases "AddContext ord blank tc") simp_all
  qed
qed

lemma AddContext_seeded:
  assumes "AddContext ord blank tc = Inr tc'"
  shows "linesOfInterest tc' \<subseteq> showLines tc'"
proof (cases "linesOfInterest tc = {}")
  case True
  with assms show ?thesis by (simp add: AddContext_def)
next
  case False
  have g: "grows tc tc'" using assms by (rule AddContext_grows)
  from assms False obtain tc3 tc4 tc5 where
    a: "addBottomLine ord (Suc (length (scopes tc))) (padShowLines (seedShowLines tc)) = Inr tc3"
    and b: "addParentContexts ord (Suc (length (scopes tc))) tc3 = Inr tc4"
    and c: "addChildContexts ord (Suc (length (scopes tc))) tc4 = Inr tc5"
    and d: "tc' = closeSmallGaps blank (addMargin tc5)"
    by (rule AddContext_steps)
  have "grows (seedShowLines tc) tc3"
    using padShowLines_grows addBottomLine_grows[OF a] by (rule grows_trans)
  then have "grows (seedShowLines tc) tc4" using addParentContexts_grows[OF b] by (rule grows_trans)
  then have "grows (seedShowLines tc) tc5" using addChildContexts_grows[OF c] by (rule grows_trans)
  then have "grows (seedShowLines tc) (addMargin tc5)" using addMargin_grows by (rule grows_trans)
  then have "grows (seedShowLines tc) tc'" unfolding d using closeSmallGaps_grows by (rule grows_trans)
  then have "showLines (seedShowLines tc) \<subseteq> showLines tc'" by (rule grows_show)
  moreover have "linesOfInterest tc' = linesOfInterest tc" using g by (simp add: grows_fields)
  ultimately show ?thesis by (auto simp: seedShowLines_def)
qed

lemma runCalls_only_AddContext:
  assumes "set post \<subseteq> {CallAddContext}"
  shows "linesOfInterest tc \<subseteq> showLines tc \<Longrightarrow> runCalls ord blank post tc = Inr tc' \<Longrightarrow>
         linesOfInterest tc' \<subseteq> showLines tc'"
  using assms
proof (induction post arbitrary: tc)
  case Nil
  then show ?case by simp
next
  case (Cons c post)
  then have c: "c = CallAddContext" and rest: "set post \<subseteq> {CallAddContext}" by auto
  from Cons.prems(2) c obtain tc1 where a: "AddContext ord blank tc = Inr tc1"
    and r: "runCalls ord blank post tc1 = Inr tc'"
    by (auto simp: bindE_Inr)
  from AddContext_seeded[OF a] r rest show ?case by (rule Cons.IH)
qed

text \<open>
  Claim C4.  After any sequence of \<open>AddLinesOfInterest\<close> and \<open>AddContext\<close> calls in
  which \<open>AddContext\<close> is called after the last \<open>AddLinesOfInterest\<close> (calls \<open>pre\<close>, then
  \<open>AddContext\<close>, then only further \<open>AddContext\<close> calls \<open>post\<close>), every line of interest is
  shown.  Moreover no pass of the expansion (seeding, padding, last line, ancestors,
  descendants, margin, gap closing), and so no call of \<open>AddContext\<close>, removes a line
  from the lines to show.
\<close>

theorem lines_of_interest_are_shown:
  assumes "validOrder ord" and "set post \<subseteq> {CallAddContext}"
  shows "(\<exists>tc'. runCalls ord blank (pre @ CallAddContext # post)
                  (NewTreeContext source rootNode options) = Inr tc'
              \<and> linesOfInterest tc' \<subseteq> showLines tc')
       \<and> (\<forall>tc. showLines tc \<subseteq> showLines (seedShowLines tc)
              \<and> showLines tc \<subseteq> showLines (padShowLines tc)
              \<and> showLines tc \<subseteq> showLines (addMargin tc)
              \<and> showLines tc \<subseteq> showLines (closeSmallGaps blank tc)
              \<and> (\<forall>fuel tc'. addBottomLine ord fuel tc = Inr tc' \<longrightarrow> showLines tc \<subseteq> showLines tc')
              \<and> (\<forall>fuel tc'. addParentContexts ord fuel tc = Inr tc' \<longrightarrow> showLines tc \<subseteq> showLines tc')
              \<and> (\<forall>fuel tc'. addChildContexts ord fuel tc = Inr tc' \<longrightarrow> showLines tc \<subseteq> showLines tc')
              \<and> (\<forall>tc'. AddContext ord blank tc = Inr tc' \<longrightarrow> showLines tc \<subseteq> showLines tc'))"
proof (rule conjI)
  let ?tc0 = "NewTreeContext source rootNode options"
  from runCalls_total[OF assms(1) NewTreeContext_wfIndex, of blank "pre @ CallAddContext # post" source rootNode options]
  obtain tc' where run: "runCalls ord blank (pre @ CallAddContext # post) ?tc0 = Inr tc'" by blast
  then obtain tcA tcB where "runCalls ord blank pre ?tc0 = Inr tcA"
    and a: "AddContext ord blank tcA = Inr tcB"
    and r: "runCalls ord blank post tcB = Inr tc'"
    by (auto simp: runCalls_append bindE_Inr)
  from AddContext_seeded[OF a] r have "linesOfInterest tc' \<subseteq> showLines tc'"
    by (rule runCalls_only_AddContext[OF assms(2)])
  with run show "\<exists>tc'. runCalls ord blank (pre @ CallAddContext # post) ?tc0 = Inr tc'
              \<and> linesOfInterest tc' \<subseteq> showLines tc'" by blast
next
  show "\<forall>tc. showLines tc \<subseteq> showLines (seedShowLines tc)
              \<and> showLines tc \<subseteq> showLines (padShowLines tc)
              \<and> showLines tc \<subseteq> showLines (addMargin tc)
              \<and> showLines tc \<subseteq> showLines (closeSmallGaps blank tc)
              \<and> (\<forall>fuel tc'. addBottomLine ord fuel tc = Inr tc' \<longrightarrow> showLines tc \<subseteq> showLines tc')
              \<and> (\<forall>fuel tc'. addParentContexts ord fuel tc = Inr tc' \<longrightarrow> showLines tc \<subseteq> showLines tc')
              \<and> (\<forall>fuel tc'. addChildContexts ord fuel tc = Inr tc' \<longrightarrow> showLines tc \<subseteq> showLines tc')
              \<and> (\<forall>tc'. AddContext ord blank tc = Inr tc' \<longrightarrow> showLines tc \<subseteq> showLines tc')"
    by (intro allI conjI impI grows_show[OF seedShowLines_grows]
          grows_show[OF padShowLines_grows] grows_show[OF addMargin_grows]
          closeSmallGaps_show)
       (erule grows_show[OF addBottomLine_grows] grows_show[OF addParentContexts_grows]
          grows_show[OF addChildContexts_grows] grows_show[OF AddContext_grows])+
qed

theorem lines_of_interest_are_shown_witness:
  "validOrder descendingOrder \<and> set [CallAddContext] \<subseteq> {CallAddContext}
   \<and> (\<exists>tc'. runCalls descendingOrder blankASCII
               ([CallAddLinesOfInterest {1}, CallAddContext, CallAddLinesOfInterest {- 3, 100}]
                  @ CallAddContext # [CallAddContext])
               (NewTreeContext fiveLines fiveLinesTree allOptions) = Inr tc'
           \<and> linesOfInterest tc' \<subseteq> showLines tc')"
proof -
  have p: "set [CallAddContext] \<subseteq> {CallAddContext}" by simp
  show ?thesis
    using lines_of_interest_are_shown[OF validOrder_descendingOrder p, of blankASCII
            "[CallAddLinesOfInterest {1}, CallAddContext, CallAddLinesOfInterest {- 3, 100}]"
            fiveLines fiveLinesTree allOptions]
      validOrder_descendingOrder p
    by blast
qed

section \<open>The budget of the descendant preview\<close>

lemma exchangePass_set:
  "exchangePass x ys = (m, r) \<Longrightarrow> insert m (set r) = insert x (set ys)"
proof (induction ys arbitrary: x m r)
  case Nil
  then show ?case by simp
next
  case (Cons y ys)
  show ?case
  proof (cases "nodeSize y > nodeSize x")
    case True
    obtain m1 r1 where p: "exchangePass y ys = (m1, r1)" by (cases "exchangePass y ys")
    with Cons.prems True have "m = m1" "r = x # r1" by simp_all
    with Cons.IH[OF p] show ?thesis by auto
  next
    case False
    obtain m1 r1 where p: "exchangePass x ys = (m1, r1)" by (cases "exchangePass x ys")
    with Cons.prems False have "m = m1" "r = y # r1" by simp_all
    with Cons.IH[OF p] show ?thesis by auto
  qed
qed

lemma sortFrom_set: "set (sortFrom n xs) = set xs"
proof (induction n arbitrary: xs)
  case 0
  show ?case by simp
next
  case (Suc n)
  show ?case
  proof (cases xs)
    case Nil
    then show ?thesis by simp
  next
    case (Cons x rest)
    obtain m r where p: "exchangePass x rest = (m, r)" by (cases "exchangePass x rest")
    from exchangePass_set[OF p] Suc.IH[of r] Cons p show ?thesis by simp
  qed
qed

lemma sortNodesBySize_set: "set (sortNodesBySize xs) = set xs"
  by (simp add: sortNodesBySize_def sortFrom_set)

lemma childLoop_budget:
  assumes "childLoop ord fuel limit cs tc = Inr tc'"
    and "int (card (showLines tc)) \<le> limit"
  shows "int (card (showLines tc')) \<le> limit
       \<or> (\<exists>child \<in> set cs. \<exists>tcm pre post.
             cs = pre @ child # post
             \<and> childLoop ord fuel limit pre tc = Inr tcm
             \<and> int (card (showLines tcm)) \<le> limit
             \<and> addParentScopes ord fuel (int (startRow child)) tcm = Inr tc')"
  using assms
proof (induction cs arbitrary: tc)
  case Nil
  then show ?case by simp
next
  case (Cons c cs)
  from Cons.prems obtain tc1 where a: "addParentScopes ord fuel (int (startRow c)) tc = Inr tc1"
    and rest: "childLoop ord fuel limit cs tc1 = Inr tc'"
    by (auto simp: bindE_Inr)
  show ?case
  proof (cases "int (card (showLines tc1)) \<le> limit")
    case True
    from Cons.IH[OF rest True] show ?thesis
    proof
      assume "int (card (showLines tc')) \<le> limit"
      then show ?thesis by simp
    next
      assume "\<exists>child \<in> set cs. \<exists>tcm pre post.
             cs = pre @ child # post
             \<and> childLoop ord fuel limit pre tc1 = Inr tcm
             \<and> int (card (showLines tcm)) \<le> limit
             \<and> addParentScopes ord fuel (int (startRow child)) tcm = Inr tc'"
      then obtain child tcm pre post where m: "child \<in> set cs"
        and split: "cs = pre @ child # post"
        and run: "childLoop ord fuel limit pre tc1 = Inr tcm"
        and within: "int (card (showLines tcm)) \<le> limit"
        and last: "addParentScopes ord fuel (int (startRow child)) tcm = Inr tc'"
        by blast
      have "c # cs = (c # pre) @ child # post" using split by simp
      moreover have "childLoop ord fuel limit (c # pre) tc = Inr tcm"
        using a run Cons.prems(2) by simp
      moreover have "child \<in> set (c # cs)" using m by simp
      ultimately show ?thesis using within last by blast
    qed
  next
    case False
    with rest have "tc' = tc1" by (cases cs) auto
    moreover have "c # cs = [] @ c # cs" by simp
    moreover have "childLoop ord fuel limit [] tc = Inr tc" by simp
    moreover have "c \<in> set (c # cs)" by simp
    ultimately show ?thesis using a Cons.prems(2) by blast
  qed
qed

lemma computedMax_bounds: "5 \<le> computedMax sz \<and> computedMax sz \<le> 25"
  by (simp add: computedMax_def Let_def)

text \<open>
  Claim C2, as the code has it.  The budget is tested before each descendant is
  expanded, and an expansion that has begun is carried out in full.  So for a scope of
  size at least 5, a descendant preview that returns either stays within
  \<open>computedMax\<close> added lines, or its last step is one ancestor expansion (of a
  descendant's start line) that began within the budget and went beyond it: the loop
  had worked through the sorted descendants before that one (\<open>pre\<close>) without leaving
  the budget.
\<close>

theorem addChildContext_budget:
  assumes "addChildContext ord fuel i tc = Inr tc'"
    and "5 \<le> getLastLineOfScope tc i - i"
  shows "int (card (showLines tc'))
           \<le> int (card (showLines tc)) + computedMax (getLastLineOfScope tc i - i)
       \<or> (\<exists>child \<in> set (concat (map findAllChildren (nodes tc ! nat i))). \<exists>tcm pre post.
             sortNodesBySize (concat (map findAllChildren (nodes tc ! nat i)))
               = pre @ child # post
             \<and> childLoop ord fuel
                   (int (card (showLines tc)) + computedMax (getLastLineOfScope tc i - i))
                   pre tc = Inr tcm
             \<and> int (card (showLines tcm))
               \<le> int (card (showLines tc)) + computedMax (getLastLineOfScope tc i - i)
             \<and> addParentScopes ord fuel (int (startRow child)) tcm = Inr tc')"
  using assms(1)
proof (cases rule: addChildContext_cases)
  case same
  then show ?thesis using computedMax_bounds[of "getLastLineOfScope tc i - i"] by simp
next
  case small
  with assms(2) show ?thesis by simp
next
  case large
  have "int (card (showLines tc))
      \<le> int (card (showLines tc)) + computedMax (getLastLineOfScope tc i - i)"
    using computedMax_bounds[of "getLastLineOfScope tc i - i"] by simp
  from childLoop_budget[OF large(5) this] show ?thesis
    unfolding sortNodesBySize_set by blast
qed

theorem addChildContext_budget_witness:
  "addChildContext ascendingOrder 43 5 (seedShowLines twoBlocks) = Inr (projr twoBlocksChild)
   \<and> 5 \<le> getLastLineOfScope (seedShowLines twoBlocks) 5 - 5
   \<and> (int (card (showLines (projr twoBlocksChild)))
           \<le> int (card (showLines (seedShowLines twoBlocks)))
               + computedMax (getLastLineOfScope (seedShowLines twoBlocks) 5 - 5)
       \<or> (\<exists>child \<in> set (concat (map findAllChildren (nodes (seedShowLines twoBlocks) ! nat 5))).
            \<exists>tcm pre post.
             sortNodesBySize (concat (map findAllChildren (nodes (seedShowLines twoBlocks) ! nat 5)))
               = pre @ child # post
             \<and> childLoop ascendingOrder 43
                   (int (card (showLines (seedShowLines twoBlocks)))
                      + computedMax (getLastLineOfScope (seedShowLines twoBlocks) 5 - 5))
                   pre (seedShowLines twoBlocks) = Inr tcm
             \<and> int (card (showLines tcm))
               \<le> int (card (showLines (seedShowLines twoBlocks)))
                   + computedMax (getLastLineOfScope (seedShowLines twoBlocks) 5 - 5)
             \<and> addParentScopes ascendingOrder 43 (int (startRow child)) tcm
                 = Inr (projr twoBlocksChild)))"
proof -
  have "\<not> isl twoBlocksChild" by code_simp
  then have r: "addChildContext ascendingOrder 43 5 (seedShowLines twoBlocks) = Inr (projr twoBlocksChild)"
    by (simp add: twoBlocksChild_def)
  have s: "5 \<le> getLastLineOfScope (seedShowLines twoBlocks) 5 - 5" by code_simp
  show ?thesis using addChildContext_budget[OF r s] r s by blast
qed

text \<open>
  Claim C2 as stated fails: for the block on line 5 of the two-block file, of size 15
  and budget 5, the first ancestor expansion alone reveals the four header lines of the
  top-level node and three more of the block: two lines were shown before, nine after.
\<close>

theorem addChildContext_exceeds_budget:
  "getLastLineOfScope (seedShowLines twoBlocks) 5 - 5 = 15
   \<and> computedMax 15 = 5
   \<and> card (showLines (seedShowLines twoBlocks)) = 2
   \<and> map_sum id (\<lambda>tc. card (showLines tc))
        (addChildContext ascendingOrder 43 5 (seedShowLines twoBlocks)) = Inr 9"
  by code_simp

section \<open>Calling the expansion twice\<close>

lemma grows_marked: "grows tc tc' \<Longrightarrow> marked i tc \<Longrightarrow> marked i tc'"
  using grows_done[of tc tc'] by (auto simp: marked_def grows_fields)

lemma addParentScopes_noop:
  "marked i tc \<Longrightarrow> addParentScopes ord (Suc n) i tc = Inr tc"
  by (auto simp: marked_def)

lemma addParentScopes_marks:
  assumes "addParentScopes ord n i tc = Inr tc'"
  shows "marked i tc'"
proof (cases n)
  case 0
  with assms show ?thesis by simp
next
  case (Suc m)
  show ?thesis
  proof (cases "i < 0 \<or> i \<ge> int (length (scopes tc)) \<or> i \<in> doneParentScopes tc")
    case True
    then have m: "marked i tc" by (auto simp: marked_def)
    then have "addParentScopes ord n i tc = Inr tc"
      unfolding Suc by (rule addParentScopes_noop)
    with assms have "tc' = tc" by (simp del: addParentScopes.simps)
    with m show ?thesis by simp
  next
    case False
    define tc2 where "tc2 = tc\<lparr>doneParentScopes := insert i (doneParentScopes tc),
                                rangeCount := Suc (rangeCount tc)\<rparr>"
    have "foldE (revealHeader (addParentScopes ord m))
            (ord (rangeCount tc) (scopes tc ! nat i)) tc2 = Inr tc'"
      using assms Suc False by (simp add: Let_def rangeKeys_def tc2_def)
    then have "grows tc2 tc'"
      by (rule foldE_grows[rotated])
         (rule revealHeader_grows[where recurse = "addParentScopes ord m"],
          rule addParentScopes_grows)
    moreover have "marked i tc2" by (simp add: marked_def tc2_def)
    ultimately show ?thesis by (rule grows_marked)
  qed
qed

lemma foldE_noop:
  assumes "\<And>x. x \<in> set xs \<Longrightarrow> f x s = Inr s"
  shows "foldE f xs s = Inr s"
  using assms by (induction xs) auto

lemma foldE_addParentScopes_marks:
  "foldE (addParentScopes ord fuel) xs s = Inr s' \<Longrightarrow> x \<in> set xs \<Longrightarrow> marked x s'"
proof (induction xs arbitrary: s)
  case Nil
  then show ?case by simp
next
  case (Cons y ys)
  from Cons.prems(1) obtain s1 where a: "addParentScopes ord fuel y s = Inr s1"
    and r: "foldE (addParentScopes ord fuel) ys s1 = Inr s'"
    by (auto simp: bindE_Inr)
  show ?case
  proof (cases "x = y")
    case True
    have "grows s1 s'" using r by (rule foldE_grows[rotated]) (rule addParentScopes_grows)
    moreover have "marked x s1" using a True by (simp add: addParentScopes_marks)
    ultimately show ?thesis by (rule grows_marked)
  next
    case False
    with Cons.prems(2) have "x \<in> set ys" by simp
    with Cons.IH[OF r] show ?thesis by simp
  qed
qed

lemma addBottomLine_marks:
  assumes "addBottomLine ord fuel tc = Inr tc'" and "lastLine tc"
  shows "numLines tc - 2 \<in> showLines tc' \<and> marked (numLines tc - 2) tc'"
proof -
  define tc1 where "tc1 = tc\<lparr>showLines := insert (numLines tc - 2) (showLines tc)\<rparr>"
  have a: "addParentScopes ord fuel (numLines tc - 2) tc1 = Inr tc'"
    using assms by (simp add: addBottomLine_def Let_def tc1_def)
  have "showLines tc1 \<subseteq> showLines tc'" using addParentScopes_grows[OF a] by (rule grows_show)
  then have "numLines tc - 2 \<in> showLines tc'" by (auto simp: tc1_def)
  with addParentScopes_marks[OF a] show ?thesis by simp
qed

lemma addParentContexts_marks:
  assumes "validOrder ord" "finite (linesOfInterest tc)" "parentContext tc"
    and "addParentContexts ord fuel tc = Inr tc'" and "i \<in> linesOfInterest tc"
  shows "marked i tc'"
proof -
  have "foldE (addParentScopes ord fuel) (ord (rangeCount tc) (linesOfInterest tc))
          (tc\<lparr>rangeCount := Suc (rangeCount tc)\<rparr>) = Inr tc'"
    using assms(3,4) by (simp add: addParentContexts_def rangeKeys_def)
  moreover have "i \<in> set (ord (rangeCount tc) (linesOfInterest tc))"
    using assms(1,2,5) by (simp add: validOrder_def)
  ultimately show ?thesis by (rule foldE_addParentScopes_marks)
qed

lemma pickBlank_rangeCount [simp]:
  "pickBlank blank (tc\<lparr>rangeCount := k\<rparr>) = pickBlank blank tc"
  by (simp add: pickBlank_def fun_eq_iff)

lemma closeSmallGaps_rangeCount:
  "showLines (closeSmallGaps blank (tc\<lparr>rangeCount := k\<rparr>)) = showLines (closeSmallGaps blank tc)"
  by (simp add: closeSmallGaps_def Let_def)

lemma AddContext_expanded:
  assumes ord: "validOrder ord" and fin: "finite (linesOfInterest tc)"
    and ne: "linesOfInterest tc \<noteq> {}"
    and run: "AddContext ord blank tc = Inr tc1"
  shows "expanded tc1"
proof -
  let ?fuel = "Suc (length (scopes tc))"
  let ?tcP = "padShowLines (seedShowLines tc)"
  from run ne obtain tc3 tc4 tc5 where
    a: "addBottomLine ord ?fuel ?tcP = Inr tc3"
    and b: "addParentContexts ord ?fuel tc3 = Inr tc4"
    and c: "addChildContexts ord ?fuel tc4 = Inr tc5"
    and d: "tc1 = closeSmallGaps blank (addMargin tc5)"
    by (rule AddContext_steps)
  have g: "grows tc tc1" using run by (rule AddContext_grows)
  have gP: "grows tc ?tcP" using seedShowLines_grows padShowLines_grows by (rule grows_trans)
  have g3: "grows tc tc3" using gP addBottomLine_grows[OF a] by (rule grows_trans)
  have g51: "grows tc5 tc1"
    unfolding d using addMargin_grows closeSmallGaps_grows by (rule grows_trans)
  have g41: "grows tc4 tc1" using addChildContexts_grows[OF c] g51 by (rule grows_trans)
  have g31: "grows tc3 tc1" using addParentContexts_grows[OF b] g41 by (rule grows_trans)
  have g5: "grows tc tc5"
    using grows_trans[OF g3 addParentContexts_grows[OF b]] addChildContexts_grows[OF c]
    by (rule grows_trans)
  have f1: "linesOfInterest tc1 \<subseteq> showLines tc1" using run by (rule AddContext_seeded)
  have f2: "numLines tc1 - 2 \<in> showLines tc1 \<and> marked (numLines tc1 - 2) tc1" if "lastLine tc1"
  proof -
    from that have "lastLine ?tcP" using g gP by (simp add: grows_fields)
    from addBottomLine_marks[OF a this]
    have "numLines ?tcP - 2 \<in> showLines tc3" "marked (numLines ?tcP - 2) tc3" by simp_all
    moreover have "numLines ?tcP = numLines tc1" using g gP by (simp add: grows_fields)
    ultimately show ?thesis using grows_show[OF g31] grows_marked[OF g31] by auto
  qed
  have f3: "marked i tc1" if "parentContext tc1" "i \<in> linesOfInterest tc1" for i
  proof -
    from that have p: "parentContext tc3" and i: "i \<in> linesOfInterest tc3"
      and fin3: "finite (linesOfInterest tc3)"
      using g g3 fin by (simp_all add: grows_fields)
    from addParentContexts_marks[OF ord fin3 p b i] show ?thesis
      using g41 by (rule grows_marked[rotated])
  qed
  have f4: "{0 ..< min (margin tc1) (numLines tc1)} \<subseteq> showLines tc1" if "margin tc1 > 0"
  proof -
    have eq: "margin tc5 = margin tc1" "numLines tc5 = numLines tc1"
      using g g5 by (simp_all add: grows_fields)
    with that have "{0 ..< min (margin tc1) (numLines tc1)} \<subseteq> showLines (addMargin tc5)"
      by (auto simp: addMargin_def)
    also have "\<dots> \<subseteq> showLines tc1" unfolding d by (rule closeSmallGaps_show)
    finally show ?thesis .
  qed
  show ?thesis unfolding expanded_def using f1 f2 f3 f4 by blast
qed

lemma AddContext_again:
  assumes ord: "validOrder ord" and fin: "finite (linesOfInterest tc)"
    and ex: "expanded tc" and ne: "linesOfInterest tc \<noteq> {}"
    and nopad: "loiPad tc \<le> 0" and nochild: "\<not> childContext tc"
  shows "\<exists>k. AddContext ord blank tc = Inr (closeSmallGaps blank (tc\<lparr>rangeCount := k\<rparr>))"
proof -
  let ?fuel = "Suc (length (scopes tc))"
  have seed: "padShowLines (seedShowLines tc) = tc"
    using ex nopad by (simp add: expanded_def seedShowLines_def padShowLines_def Un_absorb2)
  have bottom: "addBottomLine ord ?fuel tc = Inr tc"
  proof (cases "lastLine tc")
    case True
    with ex have sh: "numLines tc - 2 \<in> showLines tc" and mk: "marked (numLines tc - 2) tc"
      by (simp_all add: expanded_def)
    have noop: "addParentScopes ord ?fuel (numLines tc - 2) tc = Inr tc"
      using mk by (rule addParentScopes_noop)
    have "tc\<lparr>showLines := insert (numLines tc - 2) (showLines tc)\<rparr> = tc"
      using sh by (simp add: insert_absorb)
    then show ?thesis
      using True noop by (simp add: addBottomLine_def Let_def del: addParentScopes.simps)
  next
    case False
    then show ?thesis by (simp add: addBottomLine_def)
  qed
  obtain k where parents: "addParentContexts ord ?fuel tc = Inr (tc\<lparr>rangeCount := k\<rparr>)"
  proof (cases "parentContext tc")
    case True
    let ?s = "tc\<lparr>rangeCount := Suc (rangeCount tc)\<rparr>"
    have "foldE (addParentScopes ord ?fuel) (ord (rangeCount tc) (linesOfInterest tc)) ?s = Inr ?s"
    proof (rule foldE_noop)
      fix x assume "x \<in> set (ord (rangeCount tc) (linesOfInterest tc))"
      then have "x \<in> linesOfInterest tc" using ord fin by (simp add: validOrder_def)
      with ex True have "marked x tc" by (simp add: expanded_def)
      then have "marked x ?s" by (simp add: marked_def)
      then show "addParentScopes ord ?fuel x ?s = Inr ?s" by (rule addParentScopes_noop)
    qed
    with True have "addParentContexts ord ?fuel tc = Inr ?s"
      by (simp add: addParentContexts_def rangeKeys_def)
    then show ?thesis by (rule that)
  next
    case False
    then have "addParentContexts ord ?fuel tc = Inr (tc\<lparr>rangeCount := rangeCount tc\<rparr>)"
      by (simp add: addParentContexts_def)
    then show ?thesis by (rule that)
  qed
  have children: "addChildContexts ord ?fuel (tc\<lparr>rangeCount := k\<rparr>) = Inr (tc\<lparr>rangeCount := k\<rparr>)"
    using nochild by (simp add: addChildContexts_def)
  have marg: "addMargin (tc\<lparr>rangeCount := k\<rparr>) = tc\<lparr>rangeCount := k\<rparr>"
    using ex by (auto simp: addMargin_def expanded_def Un_absorb2)
  show ?thesis
    using ne seed bottom parents children marg
    by (auto simp: AddContext_def Let_def)
qed

text \<open>
  Claim C3, as the code has it.  A second call of \<open>AddContext\<close> never removes a line,
  but it runs padding, descendant preview and gap closing again on the grown set.  With
  no line of interest both calls do nothing.  With lines of interest, no padding and no
  descendant preview, the memo makes the ancestor expansion of the second call add
  nothing, and the second call shows exactly the gap closing of what the first call
  shows.
\<close>

theorem AddContext_twice:
  assumes "validOrder ord" and "validOrder ord'" and "finite (linesOfInterest tc)"
    and "AddContext ord blank tc = Inr tc1" and "AddContext ord' blank tc1 = Inr tc2"
  shows "showLines tc1 \<subseteq> showLines tc2
       \<and> (linesOfInterest tc = {} \<longrightarrow> tc2 = tc)
       \<and> (linesOfInterest tc \<noteq> {} \<and> loiPad tc \<le> 0 \<and> \<not> childContext tc
            \<longrightarrow> showLines tc2 = showLines (closeSmallGaps blank tc1))"
proof (intro conjI impI)
  show "showLines tc1 \<subseteq> showLines tc2"
    using assms(5) by (rule grows_show[OF AddContext_grows])
next
  assume "linesOfInterest tc = {}"
  with assms(4,5) show "tc2 = tc" by (simp add: AddContext_def)
next
  assume h: "linesOfInterest tc \<noteq> {} \<and> loiPad tc \<le> 0 \<and> \<not> childContext tc"
  have g: "grows tc tc1" using assms(4) by (rule AddContext_grows)
  have ex: "expanded tc1" using assms(1,3) h assms(4) by (auto intro: AddContext_expanded)
  have "\<exists>k. AddContext ord' blank tc1 = Inr (closeSmallGaps blank (tc1\<lparr>rangeCount := k\<rparr>))"
    using assms(2) _ ex
  proof (rule AddContext_again)
    show "finite (linesOfInterest tc1)" "linesOfInterest tc1 \<noteq> {}" "loiPad tc1 \<le> 0"
      "\<not> childContext tc1"
      using g h assms(3) by (simp_all add: grows_fields)
  qed
  with assms(5) show "showLines tc2 = showLines (closeSmallGaps blank tc1)"
    by (auto simp: closeSmallGaps_rangeCount)
qed

theorem AddContext_twice_witness:
  "validOrder ascendingOrder \<and> validOrder descendingOrder
   \<and> finite (linesOfInterest sixLinesInterest)
   \<and> AddContext ascendingOrder blankASCII sixLinesInterest = Inr (projr onceExpanded)
   \<and> AddContext descendingOrder blankASCII (projr onceExpanded) = Inr (projr twiceExpanded)
   \<and> linesOfInterest sixLinesInterest \<noteq> {} \<and> loiPad sixLinesInterest \<le> 0
   \<and> \<not> childContext sixLinesInterest
   \<and> showLines (projr onceExpanded) \<subseteq> showLines (projr twiceExpanded)
   \<and> showLines (projr twiceExpanded)
       = showLines (closeSmallGaps blankASCII (projr onceExpanded))
   \<and> showLines (projr onceExpanded) = {0, 1, 3}
   \<and> showLines (projr twiceExpanded) = {0, 1, 2, 3}"
proof -
  have ev: "showLines (projr onceExpanded) = {0, 1, 3}"
    "showLines (projr twiceExpanded) = {0, 1, 2, 3}"
    by code_simp+
  have "linesOfInterest sixLinesInterest = {0, 3}" by code_simp
  then have fin: "finite (linesOfInterest sixLinesInterest)" by simp
  have "\<not> isl onceExpanded" by code_simp
  then have r1: "AddContext ascendingOrder blankASCII sixLinesInterest = Inr (projr onceExpanded)"
    by (simp add: onceExpanded_def)
  have "\<not> isl twiceExpanded" by code_simp
  then have r2: "AddContext descendingOrder blankASCII (projr onceExpanded) = Inr (projr twiceExpanded)"
    by (simp add: twiceExpanded_def)
  have h: "linesOfInterest sixLinesInterest \<noteq> {}" "loiPad sixLinesInterest \<le> 0"
    "\<not> childContext sixLinesInterest"
    by code_simp+
  show ?thesis
    using AddContext_twice[OF validOrder_ascendingOrder validOrder_descendingOrder fin r1 r2]
      validOrder_ascendingOrder validOrder_descendingOrder fin r1 r2 h ev
    by blast
qed

text \<open>
  Claim C3 as stated fails: with a padding of one line around line 3 of the seven-line
  file, one call shows lines 2 to 4 and a second call pads these again to lines 1 to 5.
\<close>

theorem AddContext_twice_differs:
  "map_sum id showLines (AddContext ascendingOrder blankASCII paddedSeven) = Inr {2, 3, 4}
   \<and> map_sum id showLines
        (bindE (AddContext ascendingOrder blankASCII paddedSeven)
           (AddContext ascendingOrder blankASCII)) = Inr {1, 2, 3, 4, 5}"
  by code_simp

section \<open>The order of map iteration\<close>

text \<open>
  Claim C7 at a failing input.  In the two-block file the lines 5 and 21 are of
  interest.  The loop of \<open>AddContext\<close> over \<open>tc.linesOfInterest\<close> ranges over a Go map,
  in an order the runtime picks.  Line 5 first: its preview pays for the header of the
  top-level node and stops, and the preview of line 21 goes on to the nested block on
  line 25.  Line 21 first: the other way round, the nested block on line 10 is shown.
  Both orders list every key once (\<open>validOrder_ascendingOrder\<close>,
  \<open>validOrder_descendingOrder\<close>), the context before the call is the same, and the
  lines to show and the rendered text differ.
\<close>

theorem AddContext_depends_on_range_order:
  "map_sum id showLines (AddContext ascendingOrder blankASCII twoBlocks)
       = Inr ({0 .. 8} \<union> {21 .. 28})
   \<and> map_sum id showLines (AddContext descendingOrder blankASCII twoBlocks)
       = Inr ({0 .. 13} \<union> {21 .. 24})
   \<and> map_sum id Format (AddContext ascendingOrder blankASCII twoBlocks)
       \<noteq> map_sum id Format (AddContext descendingOrder blankASCII twoBlocks)"
  by code_simp

end
